theory Spec2Isabelle
  imports Main "HOL-Library.FSet" "HOL-Library.Char_ord" "HOL-Library.List_Lexorder"
begin

section \<open>Entity model\<close>

text \<open>
  A Hero hashes by its name and the core only ever compares, stores and counts heroes, so
  a hero is its name. The attribute \<open>Hero.alliances\<close> (the list of Alliance objects that
  \<open>load\<close> resolves for each hero) closes a cycle with \<open>Alliance.heroes\<close>; it is kept
  outside the hero, as the function \<open>hero_alliances\<close> of the environment below. (A hero
  that \<open>load\<close> skips keeps the alliance names it was read with and enters no alliance; such
  a hero is not among the heroes of any faction.) An Alliance is a dataclass: it is equal
  to another when all fields are, which is the equality of the record.
\<close>

type_synonym hero = string

record Alliance =
  name :: string
  level :: int
  total :: int
  effect :: string
  heroes :: "hero fset"

text \<open>
  The environment: \<open>hero_alliances h\<close> is \<open>h.alliances\<close>, and \<open>iter S\<close> is the order in
  which Python iterates over the set \<open>S\<close> (unspecified by the language, so a parameter).
\<close>

record env =
  hero_alliances :: "hero \<Rightarrow> Alliance list"
  iter :: "hero fset \<Rightarrow> hero list"

text \<open>
  The exceptions of the core. The capacity and the composition error are the two
  \<open>ValueError\<close>s the code raises itself; \<open>ZeroDivisionError\<close> comes from \<open>//\<close> by an alliance
  level of 0, and \<open>UnboundLocalError\<close> from the loop variable \<open>level\<close> of \<open>_add\<close> read after a
  loop over no level at all.
\<close>

datatype error = Capacity | Composition | ZeroDivision | UnboundLocal

definition is_ValueError :: "error \<Rightarrow> bool" where
  "is_ValueError e = (e = Capacity \<or> e = Composition)"

text \<open>\<open>len\<close> of a set, as a Python integer.\<close>

definition len :: "'a fset \<Rightarrow> int" where
  "len S = int (fcard S)"

section \<open>Partition engine\<close>

text \<open>
  A TeamAlliance holds its Alliance and the claimed level. Its back-reference \<open>tas\<close> to
  the owning container is the argument \<open>tas\<close> of every derived quantity.
\<close>

record TeamAlliance =
  alliance :: Alliance
  ta_level :: int

text \<open>
  TeamAlliances is a dict from Alliance to TeamAlliance with two extra attributes. The
  dict is the insertion-ordered list \<open>entries\<close> of its values; every value is stored under
  the key \<open>alliance\<close> of that value (\<open>__missing__\<close>, \<open>copy\<close> and \<open>set\<close> all do so).
\<close>

record TeamAlliances =
  entries :: "TeamAlliance list"
  team :: "hero fset"
  mixed :: "hero fset"

definition from_empty :: "Alliance \<Rightarrow> TeamAlliance" where
  "from_empty al = \<lparr>alliance = al, ta_level = 0\<rparr>"

definition copy_ta :: "TeamAlliance \<Rightarrow> TeamAlliance" where
  "copy_ta ta = \<lparr>alliance = alliance ta, ta_level = ta_level ta\<rparr>"

definition pool :: "TeamAlliances \<Rightarrow> hero fset" where
  "pool tas = team tas |\<union>| mixed tas"

definition p_heroes :: "TeamAlliances \<Rightarrow> TeamAlliance \<Rightarrow> hero fset" where
  "p_heroes tas ta = heroes (alliance ta) |\<inter>| pool tas"

definition t_heroes :: "TeamAlliances \<Rightarrow> TeamAlliance \<Rightarrow> hero fset" where
  "t_heroes tas ta = heroes (alliance ta) |\<inter>| team tas"

definition m_heroes :: "TeamAlliances \<Rightarrow> TeamAlliance \<Rightarrow> hero fset" where
  "m_heroes tas ta = heroes (alliance ta) |\<inter>| mixed tas"

definition a_heroes :: "TeamAlliances \<Rightarrow> TeamAlliance \<Rightarrow> hero fset" where
  "a_heroes tas ta = heroes (alliance ta) |-| pool tas"

definition total_size :: "TeamAlliance \<Rightarrow> int" where
  "total_size ta = level (alliance ta) * ta_level ta"

definition p_size :: "TeamAlliances \<Rightarrow> TeamAlliance \<Rightarrow> int" where
  "p_size tas ta = min (level (alliance ta) * ta_level ta) (len (p_heroes tas ta))"

definition t_size :: "TeamAlliances \<Rightarrow> TeamAlliance \<Rightarrow> int" where
  "t_size tas ta = min (level (alliance ta) * ta_level ta) (len (t_heroes tas ta))"

definition m_size :: "TeamAlliances \<Rightarrow> TeamAlliance \<Rightarrow> int" where
  "m_size tas ta = p_size tas ta - t_size tas ta"

definition a_size :: "TeamAlliances \<Rightarrow> TeamAlliance \<Rightarrow> int" where
  "a_size tas ta = level (alliance ta) * ta_level ta - p_size tas ta"

definition level_up_amount :: "TeamAlliances \<Rightarrow> TeamAlliance \<Rightarrow> int \<Rightarrow> int \<Rightarrow> int" where
  "level_up_amount tas ta lv tsz =
     (let n_size = lv * level (alliance ta)
      in max 0 (n_size - len (p_heroes tas ta) - tsz))"

definition keys :: "TeamAlliances \<Rightarrow> Alliance list" where
  "keys tas = map alliance (entries tas)"

definition contains :: "TeamAlliances \<Rightarrow> Alliance \<Rightarrow> bool" where
  "contains tas al = (al \<in> set (keys tas))"

text \<open>\<open>dict.__setitem__\<close>: an existing key keeps its position, a new key goes last.\<close>

fun setitem :: "TeamAlliance list \<Rightarrow> TeamAlliance \<Rightarrow> TeamAlliance list" where
  "setitem [] v = [v]"
| "setitem (x # xs) v = (if alliance x = alliance v then v # xs else x # setitem xs v)"

text \<open>
  \<open>self[alliance]\<close>: the stored entry, or, through \<open>__missing__\<close>, a fresh level-0 entry
  that is inserted into the container. The container is returned with the entry.
\<close>

definition getitem :: "TeamAlliances \<Rightarrow> Alliance \<Rightarrow> TeamAlliance \<times> TeamAlliances" where
  "getitem tas al =
     (case find (\<lambda>ta. alliance ta = al) (entries tas) of
        Some ta \<Rightarrow> (ta, tas)
      | None \<Rightarrow> (from_empty al, tas\<lparr>entries := setitem (entries tas) (from_empty al)\<rparr>))"

definition eq_tas :: "TeamAlliances \<Rightarrow> TeamAlliances \<Rightarrow> bool" where
  "eq_tas a b = (team a = team b \<and> mixed a = mixed b \<and> set (keys a) = set (keys b))"

definition copy_tas :: "TeamAlliances \<Rightarrow> TeamAlliances" where
  "copy_tas tas = \<lparr>entries = map copy_ta (entries tas), team = team tas, mixed = mixed tas\<rparr>"

definition set_tas :: "TeamAlliances \<Rightarrow> Alliance \<Rightarrow> int \<Rightarrow> TeamAlliances" where
  "set_tas tas al lv = tas\<lparr>entries := setitem (entries tas) \<lparr>alliance = al, ta_level = lv\<rparr>\<rparr>"

definition size_tas :: "TeamAlliances \<Rightarrow> int" where
  "size_tas tas =
     len (team tas) + len (mixed tas) + sum_list (map (\<lambda>ta. max 0 (a_size tas ta)) (entries tas))"

section \<open>Team mutation core\<close>

record Team =
  tsize :: int
  alliances :: TeamAlliances
  limit :: int

text \<open>
  A mutation either returns (\<open>Inr\<close>, the Team as it is then) or raises (\<open>Inl\<close>, the
  exception together with the state in which the Team object is left).
\<close>

type_synonym outcome = "(error \<times> Team) + Team"

definition init_team :: "int \<Rightarrow> Team" where
  "init_team lim = \<lparr>tsize = 0, alliances = \<lparr>entries = [], team = {||}, mixed = {||}\<rparr>, limit = lim\<rparr>"

definition eq_team :: "Team \<Rightarrow> Team \<Rightarrow> bool" where
  "eq_team a b = (tsize a = tsize b \<and> eq_tas (alliances a) (alliances b) \<and> limit a = limit b)"

definition copy' :: "Team \<Rightarrow> Team" where
  "copy' t = init_team (limit t)"

definition copy :: "Team \<Rightarrow> Team" where
  "copy t = (copy' t)\<lparr>tsize := tsize t, alliances := copy_tas (alliances t)\<rparr>"

definition post_check :: "Team \<Rightarrow> TeamAlliances \<Rightarrow> outcome" where
  "post_check t prev_tas =
     (if list_ex (\<lambda>ta. len (a_heroes (alliances t) ta) < a_size (alliances t) ta
                      \<or> len (m_heroes (alliances t) ta) < m_size (alliances t) ta)
           (entries (alliances t))
      then Inl (Composition, t\<lparr>alliances := prev_tas\<rparr>)
      else Inr t)"

definition post_add_mixed :: "Team \<Rightarrow> Team" where
  "post_add_mixed t =
     (let tas = alliances t;
          tm = fold (\<lambda>ta acc. if len (a_heroes tas ta) \<le> a_size tas ta
                               then acc |\<union>| a_heroes tas ta else acc) (entries tas) {||}
      in t\<lparr>alliances := tas\<lparr>mixed := mixed tas |\<union>| tm\<rparr>\<rparr>)"

definition post_add_team :: "Team \<Rightarrow> Team" where
  "post_add_team t =
     (let tas = alliances t;
          tm = fold (\<lambda>ta acc. if len (m_heroes tas ta) \<le> m_size tas ta
                               then acc |\<union>| m_heroes tas ta else acc) (entries tas) {||}
      in t\<lparr>alliances := tas\<lparr>team := team tas |\<union>| tm, mixed := mixed tas |-| tm\<rparr>\<rparr>)"

text \<open>\<open>alliances.setdefault(alliance, []).append(hero)\<close> on an insertion-ordered dict.\<close>

fun setdefault_append ::
  "(Alliance \<times> hero list) list \<Rightarrow> Alliance \<Rightarrow> hero \<Rightarrow> (Alliance \<times> hero list) list" where
  "setdefault_append [] al h = [(al, [h])]"
| "setdefault_append ((k, hs) # d) al h =
     (if k = al then (k, hs @ [h]) # d else (k, hs) # setdefault_append d al h)"

definition by_alliance :: "env \<Rightarrow> hero fset \<Rightarrow> (Alliance \<times> hero list) list" where
  "by_alliance e tm =
     fold (\<lambda>h d. fold (\<lambda>al d'. setdefault_append d' al h) (hero_alliances e h) d) (iter e tm) []"

text \<open>\<open>ta.level = level\<close> on the entry stored for \<open>al\<close>.\<close>

definition set_level :: "TeamAlliances \<Rightarrow> Alliance \<Rightarrow> int \<Rightarrow> TeamAlliances" where
  "set_level tas al lv =
     tas\<lparr>entries := map (\<lambda>ta. if alliance ta = al then ta\<lparr>ta_level := lv\<rparr> else ta) (entries tas)\<rparr>"

text \<open>
  The second loop of \<open>_post_add_alliance\<close>. \<open>raise_level\<close> is its body once the division
  has gone through; \<open>len(heroes) // alliance.level\<close> raises \<open>ZeroDivisionError\<close> for an
  alliance of level 0, with the earlier entries already updated.
\<close>

definition raise_level :: "Alliance \<Rightarrow> hero list \<Rightarrow> Team \<Rightarrow> Team" where
  "raise_level al hs t =
     (let lv = int (length hs) div level al
      in if lv \<noteq> 0
         then (case getitem (alliances t) al of
                 (ta, tas) \<Rightarrow>
                   if lv > ta_level ta
                   then t\<lparr>alliances := set_level tas al lv\<rparr>
                   else t\<lparr>alliances := tas\<rparr>)
         else t)"

fun raise_levels :: "(Alliance \<times> hero list) list \<Rightarrow> Team \<Rightarrow> outcome" where
  "raise_levels [] t = Inr t"
| "raise_levels ((al, hs) # d) t =
     (if level al = 0 then Inl (ZeroDivision, t)
      else raise_levels d (raise_level al hs t))"

definition post_add_alliance :: "env \<Rightarrow> Team \<Rightarrow> outcome" where
  "post_add_alliance e t = raise_levels (by_alliance e (team (alliances t))) t"

definition post_add :: "env \<Rightarrow> Team \<Rightarrow> outcome" where
  "post_add e t = post_add_alliance e (post_add_team (post_add_mixed t))"

text \<open>The overlap loop of \<open>_add\<close>: one iteration, on the working set and \<open>t_size\<close>.\<close>

definition overlap_step ::
  "TeamAlliances \<Rightarrow> Alliance \<Rightarrow> TeamAlliance \<Rightarrow> hero fset \<times> int \<Rightarrow> hero fset \<times> int" where
  "overlap_step tas al ta acc =
     (case acc of (tm, tsz) \<Rightarrow>
        if alliance ta \<noteq> al \<and> a_size tas ta > 0
        then (let hs = heroes (alliance ta) |\<inter>| heroes al
              in (tm |\<union>| hs, tsz + min (a_size tas ta) (len (hs |-| tm))))
        else (tm, tsz))"

text \<open>
  The loop over the candidate levels. It returns the size and the value the loop
  variable \<open>level\<close> has once the loop is left: the level at which it broke, or the last
  level it looked at, or nothing when there was no level at all.
\<close>

fun first_fit ::
  "TeamAlliances \<Rightarrow> TeamAlliance \<Rightarrow> int \<Rightarrow> int \<Rightarrow> int \<Rightarrow> int list \<Rightarrow> int option \<Rightarrow> int \<times> int option" where
  "first_fit tas ta tsz lim sz [] seen = (sz, seen)"
| "first_fit tas ta tsz lim sz (lv # lvs) seen =
     (if lv > ta_level ta \<and> sz + level_up_amount tas ta lv tsz \<le> lim
      then (sz + level_up_amount tas ta lv tsz, Some lv)
      else first_fit tas ta tsz lim sz lvs (Some lv))"

definition add' :: "env \<Rightarrow> Team \<Rightarrow> Alliance \<Rightarrow> int list \<Rightarrow> outcome" where
  "add' e t al lvs =
     (let tas0 = alliances t;
          (tm0, tsz) = (if \<not> contains tas0 al
                        then fold (overlap_step tas0 al) (entries tas0) (pool tas0, 0)
                        else (pool tas0, 0));
          tm = tm0 |-| pool tas0;
          (ta, tas1) = getitem tas0 al;
          t1 = t\<lparr>alliances := tas1\<rparr>;
          (sz, seen) = first_fit tas1 ta tsz (limit t) (size_tas tas1) lvs None
      in if sz > limit t then Inl (Capacity, t1)
         else let prev_tas = copy_tas tas1;
                  t2 = t1\<lparr>alliances := tas1\<lparr>mixed := mixed tas1 |\<union>| tm\<rparr>, tsize := sz\<rparr>
              in case seen of
                   None \<Rightarrow> Inl (UnboundLocal, t2)
                 | Some lv \<Rightarrow>
                     let t3 = t2\<lparr>alliances := set_tas (alliances t2) al lv\<rparr>
                     in if size_tas (alliances t3) > limit t3
                        then Inl (Capacity, t3\<lparr>alliances := prev_tas\<rparr>)
                        else (case post_check t3 prev_tas of
                                Inl x \<Rightarrow> Inl x
                              | Inr t4 \<Rightarrow> post_add e t4))"

definition add :: "env \<Rightarrow> Team \<Rightarrow> Alliance \<Rightarrow> int \<Rightarrow> outcome" where
  "add e t al lv =
     (if level al = 0 then Inl (ZeroDivision, t)
      else add' e t al [min lv (total al div level al)])"

definition add_max :: "env \<Rightarrow> Team \<Rightarrow> Alliance \<Rightarrow> outcome" where
  "add_max e t al =
     (if level al = 0 then Inl (ZeroDivision, t)
      else add' e t al (rev [1..total al div level al]))"

definition add_hero' :: "env \<Rightarrow> Team \<Rightarrow> hero \<Rightarrow> outcome" where
  "add_hero' e t h =
     (let tas = alliances t
      in if \<not> list_ex (\<lambda>ta. h |\<in>| a_heroes tas ta) (filter (\<lambda>ta. a_size tas ta > 0) (entries tas))
            \<and> size_tas tas + 1 > limit t
         then Inl (Capacity, t)
         else let prev_tas = copy_tas tas;
                  tas1 = tas\<lparr>team := team tas |\<union>| {|h|}\<rparr>;
                  tas2 = tas1\<lparr>mixed := mixed tas1 |-| team tas1\<rparr>
              in (case post_check (t\<lparr>alliances := tas2\<rparr>) prev_tas of
                    Inl x \<Rightarrow> Inl x
                  | Inr t4 \<Rightarrow> post_add e t4))"

definition add_hero :: "env \<Rightarrow> Team \<Rightarrow> hero \<Rightarrow> outcome" where
  "add_hero e t h = add_hero' e t h"

section \<open>Upgrade rules\<close>


definition team_max :: "env \<Rightarrow> Team \<Rightarrow> Alliance \<Rightarrow> outcome" where
  "team_max e t al = add_max e t al"

section \<open>Exploration engine\<close>

text \<open>
  A generator is the list of what it yields, or the exception that ends it. \<open>_increase\<close>
  catches \<open>ValueError\<close> only; any other exception of the rule leaves the generator.
\<close>

definition iter_or :: "'a list \<Rightarrow> 'a \<Rightarrow> 'a list" where
  "iter_or xs dflt = (case xs of [] \<Rightarrow> [dflt] | first # rest \<Rightarrow> first # rest)"

fun increase' :: "(Team \<Rightarrow> Alliance \<Rightarrow> outcome) \<Rightarrow> Team \<Rightarrow> Alliance list \<Rightarrow> error + Team list" where
  "increase' fn self [] = Inr []"
| "increase' fn self (al # als) =
     (case fn (copy self) al of
        Inl (x, _) \<Rightarrow> if is_ValueError x then increase' fn self als else Inl x
      | Inr v \<Rightarrow>
          (case increase' fn self als of
             Inl x \<Rightarrow> Inl x
           | Inr vs \<Rightarrow> Inr (if \<not> eq_team v self then v # vs else vs)))"


text \<open>
  \<open>recursive_increase\<close> and \<open>_recursive_increase\<close> call each other, and nothing in the
  code bounds the depth, so they are one partial function: \<open>explore fn als (Inl self)\<close> is
  \<open>self.recursive_increase(als, fn)\<close>, and \<open>explore fn als (Inr teams)\<close> is the loop of
  \<open>_recursive_increase\<close> over the teams that \<open>_increase\<close> yields. \<open>None\<close> is a recursion
  that never comes back.
\<close>

partial_function (option) explore ::
  "(Team \<Rightarrow> Alliance \<Rightarrow> outcome) \<Rightarrow> Alliance list \<Rightarrow> Team + Team list
     \<Rightarrow> (error + Team list) option" where
  "explore fn als x =
     (case x of
        Inl self \<Rightarrow>
          (case increase' fn self als of
             Inl err \<Rightarrow> Some (Inl err)
           | Inr vs \<Rightarrow>
               Option.bind (explore fn als (Inr vs))
                 (\<lambda>r. Some (map_sum id (\<lambda>ys. iter_or ys self) r)))
      | Inr [] \<Rightarrow> Some (Inr [])
      | Inr (v # vs) \<Rightarrow>
          Option.bind (explore fn als (Inl v))
            (\<lambda>r. case r of
                    Inl err \<Rightarrow> Some (Inl err)
                  | Inr ys \<Rightarrow>
                      Option.bind (explore fn als (Inr vs))
                        (\<lambda>r'. Some (map_sum id (\<lambda>zs. ys @ zs) r'))))"

definition recursive_increase' ::
  "(Team \<Rightarrow> Alliance \<Rightarrow> outcome) \<Rightarrow> Team \<Rightarrow> Alliance list \<Rightarrow> (error + Team list) option" where
  "recursive_increase' fn self als =
     (case increase' fn self als of
        Inl err \<Rightarrow> Some (Inl err)
      | Inr vs \<Rightarrow> explore fn als (Inr vs))"

definition recursive_increase ::
  "(Team \<Rightarrow> Alliance \<Rightarrow> outcome) \<Rightarrow> Team \<Rightarrow> Alliance list \<Rightarrow> (error + Team list) option" where
  "recursive_increase fn self als = explore fn als (Inl self)"


section \<open>The public mutations as one call\<close>

text \<open>
  \<open>add\<close>, \<open>add_max\<close> and \<open>add_hero\<close> under one name, so that a property of every public
  mutation is one statement. \<open>requested\<close> is the faction a call names, \<open>direct\<close> the hero it
  adds directly.
\<close>

datatype mutation = Add Alliance int | Add_max Alliance | Add_hero hero

fun mutate :: "env \<Rightarrow> Team \<Rightarrow> mutation \<Rightarrow> outcome" where
  "mutate e t (Add al lv) = add e t al lv"
| "mutate e t (Add_max al) = add_max e t al"
| "mutate e t (Add_hero h) = add_hero e t h"

fun requested :: "mutation \<Rightarrow> Alliance option" where
  "requested (Add al lv) = Some al"
| "requested (Add_max al) = Some al"
| "requested (Add_hero h) = None"

fun direct :: "mutation \<Rightarrow> hero fset" where
  "direct (Add al lv) = {||}"
| "direct (Add_max al) = {||}"
| "direct (Add_hero h) = {|h|}"

section \<open>Well-formed input and the quantities the properties speak of\<close>

text \<open>
  What \<open>load\<close> builds: a hero is a member of every alliance it lists. The input contract
  adds that alliance levels are positive; a hero lists an alliance once; and iterating
  over a set visits each element once.
\<close>

definition loaded :: "env \<Rightarrow> bool" where
  "loaded e =
     ((\<forall>S. distinct (iter e S) \<and> set (iter e S) = fset S) \<and>
      (\<forall>h. distinct (hero_alliances e h) \<and>
           (\<forall>al \<in> set (hero_alliances e h). h |\<in>| heroes al \<and> 0 < level al)))"

definition disjoint :: "Team \<Rightarrow> bool" where
  "disjoint t = (team (alliances t) |\<inter>| mixed (alliances t) = {||})"

text \<open>The heroes of the factions that have an entry in the container, at whatever level.\<close>

definition present_heroes :: "TeamAlliances \<Rightarrow> hero fset" where
  "present_heroes tas = ffUnion (fset_of_list (map heroes (keys tas)))"

text \<open>
  The heroes of the engaged factions. A faction is engaged when its stored level is not 0:
  level 0 is what an entry has that was only materialised by a read.
\<close>

definition engaged_heroes :: "TeamAlliances \<Rightarrow> hero fset" where
  "engaged_heroes tas =
     ffUnion (fset_of_list (map (\<lambda>ta. heroes (alliance ta))
                               (filter (\<lambda>ta. ta_level ta \<noteq> 0) (entries tas))))"

text \<open>The stored level of a faction, 0 when it has no entry.\<close>

definition stored_level :: "Team \<Rightarrow> Alliance \<Rightarrow> int" where
  "stored_level t al =
     (case find (\<lambda>ta. alliance ta = al) (entries (alliances t)) of
        Some ta \<Rightarrow> ta_level ta
      | None \<Rightarrow> 0)"

section \<open>Objects and references: what \<open>copy\<close> shares\<close>

text \<open>
  The sections above pass Teams as values, which is all the mutation and exploration
  code can observe. Whether \<open>copy\<close> shares a mutable object with the original cannot be
  said on values, so \<open>Team.copy\<close> is given a second time on an explicit store. An address is
  an index into the list of allocated objects; a Python set, a TeamAlliance, a
  TeamAlliances container and a Team are objects, and their attributes that refer to
  such objects hold addresses. \<open>set(self.team)\<close>, \<open>type(self)(limit)\<close> and \<open>value.copy(new)\<close>
  allocate; \<open>new[key] = value\<close>, \<open>new.size = self.size\<close> and \<open>new.alliances = c\<close> write to
  an object. A read through a dangling or ill-typed reference, which Python cannot have,
  is \<open>None\<close>.
\<close>

type_synonym addr = nat

record TeamAlliance_obj =
  o_alliance :: Alliance
  o_level :: int
  o_tas :: addr

record TeamAlliances_obj =
  o_items :: "(Alliance \<times> addr) list"
  o_team :: addr
  o_mixed :: addr

record Team_obj =
  o_size :: int
  o_alliances :: addr
  o_limit :: int

datatype obj =
  Set_obj "hero fset"
| TA_obj TeamAlliance_obj
| TAS_obj TeamAlliances_obj
| T_obj Team_obj

type_synonym heap = "obj list"

definition alloc :: "heap \<Rightarrow> obj \<Rightarrow> heap \<times> addr" where
  "alloc h ob = (h @ [ob], length h)"

definition get_set :: "heap \<Rightarrow> addr \<Rightarrow> hero fset option" where
  "get_set h a = (if a < length h then (case h ! a of Set_obj S \<Rightarrow> Some S | _ \<Rightarrow> None) else None)"

definition get_ta :: "heap \<Rightarrow> addr \<Rightarrow> TeamAlliance_obj option" where
  "get_ta h a = (if a < length h then (case h ! a of TA_obj x \<Rightarrow> Some x | _ \<Rightarrow> None) else None)"

definition get_tas :: "heap \<Rightarrow> addr \<Rightarrow> TeamAlliances_obj option" where
  "get_tas h a = (if a < length h then (case h ! a of TAS_obj x \<Rightarrow> Some x | _ \<Rightarrow> None) else None)"

definition get_team :: "heap \<Rightarrow> addr \<Rightarrow> Team_obj option" where
  "get_team h a = (if a < length h then (case h ! a of T_obj x \<Rightarrow> Some x | _ \<Rightarrow> None) else None)"

fun dict_set :: "(Alliance \<times> addr) list \<Rightarrow> Alliance \<Rightarrow> addr \<Rightarrow> (Alliance \<times> addr) list" where
  "dict_set [] k r = [(k, r)]"
| "dict_set ((k', r') # d) k r = (if k' = k then (k, r) # d else (k', r') # dict_set d k r)"

definition h_init_team :: "heap \<Rightarrow> int \<Rightarrow> heap \<times> addr" where
  "h_init_team h lim =
     (let (h1, s1) = alloc h (Set_obj {||});
          (h2, s2) = alloc h1 (Set_obj {||});
          (h3, c) = alloc h2 (TAS_obj \<lparr>o_items = [], o_team = s1, o_mixed = s2\<rparr>)
      in alloc h3 (T_obj \<lparr>o_size = 0, o_alliances = c, o_limit = lim\<rparr>))"

fun h_copy_items :: "heap \<Rightarrow> addr \<Rightarrow> (Alliance \<times> addr) list \<Rightarrow> heap option" where
  "h_copy_items h new [] = Some h"
| "h_copy_items h new ((k, r) # rest) =
     (case get_ta h r of
        None \<Rightarrow> None
      | Some v \<Rightarrow>
          (case alloc h (TA_obj \<lparr>o_alliance = o_alliance v, o_level = o_level v, o_tas = new\<rparr>) of
             (h1, r') \<Rightarrow>
               (case get_tas h1 new of
                  None \<Rightarrow> None
                | Some ts \<Rightarrow>
                    h_copy_items (h1[new := TAS_obj (ts\<lparr>o_items := dict_set (o_items ts) k r'\<rparr>)])
                      new rest)))"

definition h_copy_tas :: "heap \<Rightarrow> addr \<Rightarrow> (heap \<times> addr) option" where
  "h_copy_tas h a =
     (case get_tas h a of
        None \<Rightarrow> None
      | Some ts \<Rightarrow>
          (case (get_set h (o_team ts), get_set h (o_mixed ts)) of
             (Some T, Some M) \<Rightarrow>
               (let (h1, s1) = alloc h (Set_obj T);
                    (h2, s2) = alloc h1 (Set_obj M);
                    (h3, new) = alloc h2 (TAS_obj \<lparr>o_items = [], o_team = s1, o_mixed = s2\<rparr>)
                in map_option (\<lambda>h4. (h4, new)) (h_copy_items h3 new (o_items ts)))
           | _ \<Rightarrow> None))"

definition h_copy :: "heap \<Rightarrow> addr \<Rightarrow> (heap \<times> addr) option" where
  "h_copy h a =
     (case get_team h a of
        None \<Rightarrow> None
      | Some self \<Rightarrow>
          (let (h1, new) = h_init_team h (o_limit self)
           in case get_team h1 new of
                None \<Rightarrow> None
              | Some n1 \<Rightarrow>
                  (let h2 = h1[new := T_obj (n1\<lparr>o_size := o_size self\<rparr>)]
                   in case h_copy_tas h2 (o_alliances self) of
                        None \<Rightarrow> None
                      | Some (h3, c) \<Rightarrow>
                          (case get_team h3 new of
                             None \<Rightarrow> None
                           | Some n2 \<Rightarrow> Some (h3[new := T_obj (n2\<lparr>o_alliances := c\<rparr>)], new)))))"

text \<open>
  The Team value that an address stands for: the link between the store and the Teams
  of the sections above.
\<close>

fun view_entries :: "heap \<Rightarrow> (Alliance \<times> addr) list \<Rightarrow> TeamAlliance list option" where
  "view_entries h [] = Some []"
| "view_entries h ((k, r) # d) =
     (case get_ta h r of
        None \<Rightarrow> None
      | Some v \<Rightarrow> map_option (\<lambda>es. \<lparr>alliance = o_alliance v, ta_level = o_level v\<rparr> # es)
                   (view_entries h d))"

definition view :: "heap \<Rightarrow> addr \<Rightarrow> Team option" where
  "view h a =
     (case get_team h a of
        None \<Rightarrow> None
      | Some self \<Rightarrow>
          (case get_tas h (o_alliances self) of
             None \<Rightarrow> None
           | Some ts \<Rightarrow>
               (case (get_set h (o_team ts), get_set h (o_mixed ts), view_entries h (o_items ts)) of
                  (Some T, Some M, Some es) \<Rightarrow>
                    Some \<lparr>tsize = o_size self,
                          alliances = \<lparr>entries = es, team = T, mixed = M\<rparr>,
                          limit = o_limit self\<rparr>
                | _ \<Rightarrow> None)))"

text \<open>
  The objects that make up the Team at an address: the Team, its container, the two sets
  and the entries.
\<close>

definition objects_of :: "heap \<Rightarrow> addr \<Rightarrow> addr list" where
  "objects_of h a =
     a # (case get_team h a of
            None \<Rightarrow> []
          | Some self \<Rightarrow>
              o_alliances self #
              (case get_tas h (o_alliances self) of
                 None \<Rightarrow> []
               | Some ts \<Rightarrow> o_team ts # o_mixed ts # map snd (o_items ts)))"

text \<open>A dict holds a key once.\<close>

definition dict_ok :: "heap \<Rightarrow> addr \<Rightarrow> bool" where
  "dict_ok h a =
     (case get_team h a of
        None \<Rightarrow> False
      | Some self \<Rightarrow>
          (case get_tas h (o_alliances self) of
             None \<Rightarrow> False
           | Some ts \<Rightarrow> distinct (map fst (o_items ts))))"

text \<open>
  \<open>agree h h'\<close>: every object of \<open>h\<close> is still the same in \<open>h'\<close>. \<open>confined h objs h'\<close>: the
  store \<open>h'\<close> comes from \<open>h\<close> by writes to the objects \<open>objs\<close> and by allocation only.
  \<open>reparented h a\<close>: every entry of the Team at \<open>a\<close> refers back to that Team's container.
\<close>

definition agree :: "heap \<Rightarrow> heap \<Rightarrow> bool" where
  "agree h h' = (length h \<le> length h' \<and> take (length h) h' = h)"

definition confined :: "heap \<Rightarrow> addr list \<Rightarrow> heap \<Rightarrow> bool" where
  "confined h objs h' =
     (length h \<le> length h' \<and> (\<forall>x \<in> set [0..<length h]. x \<notin> set objs \<longrightarrow> h' ! x = h ! x))"

definition reparented :: "heap \<Rightarrow> addr \<Rightarrow> bool" where
  "reparented h a =
     (case get_team h a of
        None \<Rightarrow> False
      | Some self \<Rightarrow>
          (case get_tas h (o_alliances self) of
             None \<Rightarrow> False
           | Some ts \<Rightarrow>
               list_all (\<lambda>(k, r). map_option o_tas (get_ta h r) = Some (o_alliances self))
                 (o_items ts)))"

section \<open>Concrete data\<close>

definition ex_F :: Alliance where
  "ex_F = \<lparr>name = ''F'', level = 3, total = 9, effect = [],
           heroes = {|''a'', ''b'', ''c'', ''d'', ''e'', ''f'', ''g'', ''h'', ''i''|}\<rparr>"

definition ex_G :: Alliance where
  "ex_G = \<lparr>name = ''G'', level = 3, total = 9, effect = [], heroes = {|''a'', ''b''|}\<rparr>"


definition ex_K :: Alliance where
  "ex_K = \<lparr>name = ''K'', level = 3, total = 3, effect = [], heroes = {|''x'', ''y'', ''z''|}\<rparr>"

definition ex_P :: Alliance where
  "ex_P = \<lparr>name = ''P'', level = 3, total = 9, effect = [],
           heroes = {|''a'', ''b'', ''p'', ''q'', ''r'', ''s''|}\<rparr>"

definition ex_env :: env where
  "ex_env =
     \<lparr>hero_alliances = (\<lambda>h. (if h |\<in>| heroes ex_F then [ex_F] else []) @
                             (if h |\<in>| heroes ex_G then [ex_G] else []) @
                             (if h |\<in>| heroes ex_K then [ex_K] else []) @
                             (if h |\<in>| heroes ex_P then [ex_P] else [])),
      iter = sorted_list_of_fset\<rparr>"

text \<open>A Team whose only entry is \<open>ex_F\<close>, with cached size \<open>sz\<close> and level \<open>lv\<close>.\<close>

definition ex_team :: "int \<Rightarrow> int \<Rightarrow> int \<Rightarrow> Team" where
  "ex_team lim sz lv =
     \<lparr>tsize = sz,
      alliances = \<lparr>entries = [\<lparr>alliance = ex_F, ta_level = lv\<rparr>], team = {||}, mixed = {||}\<rparr>,
      limit = lim\<rparr>"

text \<open>
  A Team with the entries \<open>ex_F\<close> and \<open>ex_P\<close>, at the levels \<open>lvF\<close> and \<open>lvP\<close>, whose team
  set is the two heroes the factions share.
\<close>

definition ex_pair :: "int \<Rightarrow> int \<Rightarrow> int \<Rightarrow> Team" where
  "ex_pair sz lvF lvP =
     \<lparr>tsize = sz,
      alliances = \<lparr>entries = [\<lparr>alliance = ex_F, ta_level = lvF\<rparr>, \<lparr>alliance = ex_P, ta_level = lvP\<rparr>],
                   team = {|''a'', ''b''|}, mixed = {||}\<rparr>,
      limit = 10\<rparr>"

text \<open>
  A store with the Team \<open>ex_team 10 6 2\<close> at address 4, the store after \<open>copy\<close> of that
  Team, and the latter after \<open>ta.level = 3\<close> on the entry of the copy.
\<close>

definition ex_heap :: heap where
  "ex_heap =
     [Set_obj {||}, Set_obj {||},
      TAS_obj \<lparr>o_items = [(ex_F, 3)], o_team = 0, o_mixed = 1\<rparr>,
      TA_obj \<lparr>o_alliance = ex_F, o_level = 2, o_tas = 2\<rparr>,
      T_obj \<lparr>o_size = 6, o_alliances = 2, o_limit = 10\<rparr>]"

definition ex_heap_copy :: heap where
  "ex_heap_copy =
     ex_heap @
     [Set_obj {||}, Set_obj {||},
      TAS_obj \<lparr>o_items = [], o_team = 5, o_mixed = 6\<rparr>,
      T_obj \<lparr>o_size = 6, o_alliances = 11, o_limit = 10\<rparr>,
      Set_obj {||}, Set_obj {||},
      TAS_obj \<lparr>o_items = [(ex_F, 12)], o_team = 9, o_mixed = 10\<rparr>,
      TA_obj \<lparr>o_alliance = ex_F, o_level = 2, o_tas = 11\<rparr>]"

definition ex_heap_mutated :: heap where
  "ex_heap_mutated = ex_heap_copy[12 := TA_obj \<lparr>o_alliance = ex_F, o_level = 3, o_tas = 11\<rparr>]"

section \<open>Basic facts\<close>

lemma copy_ta_id [simp]: "copy_ta ta = ta"
  by (simp add: copy_ta_def)

lemma copy_tas_id [simp]: "copy_tas tas = tas"
  by (simp add: copy_tas_def map_idI)

lemma copy_id [simp]: "copy t = t"
  by (simp add: copy_def copy'_def init_team_def)

lemma len_nonneg [simp]: "0 \<le> len S"
  by (simp add: len_def)

lemma len_empty [simp]: "len {||} = 0"
  by (simp add: len_def)

lemma len_le_0 [simp]: "len S \<le> 0 \<longleftrightarrow> S = {||}"
  by (simp add: len_def)

lemma len_mono: "A |\<subseteq>| B \<Longrightarrow> len A \<le> len B"
  by (simp add: len_def fcard_mono)

lemma len_union_le: "len (A |\<union>| B) \<le> len A + len B"
  using fcard_funion_finter[of A B] by (simp add: len_def)

lemma len_union_disj: "A |\<inter>| B = {||} \<Longrightarrow> len (A |\<union>| B) = len A + len B"
  by (simp add: len_def fcard_funion_disjoint)

lemma len_split: "len H = len (H |\<inter>| P) + len (H |-| P)"
proof -
  have "(H |\<inter>| P) |\<inter>| (H |-| P) = {||}" by auto
  moreover have "(H |\<inter>| P) |\<union>| (H |-| P) = H" by auto
  ultimately show ?thesis using len_union_disj[of "H |\<inter>| P" "H |-| P"] by simp
qed

lemma a_size_max: "a_size tas ta = max 0 (total_size ta - len (p_heroes tas ta))"
  by (simp add: a_size_def p_size_def total_size_def)

lemma a_size_nonneg [simp]: "0 \<le> a_size tas ta"
  by (simp add: a_size_max)

lemma a_size_antimono:
  assumes "pool tas |\<subseteq>| pool tas'"
  shows "a_size tas' ta \<le> a_size tas ta"
proof -
  have "p_heroes tas ta |\<subseteq>| p_heroes tas' ta"
    using assms by (auto simp: p_heroes_def)
  then have "len (p_heroes tas ta) \<le> len (p_heroes tas' ta)" by (rule len_mono)
  then show ?thesis by (simp add: a_size_max)
qed

lemma a_size_absorb:
  assumes sub: "pool tas |\<subseteq>| pool tas'"
    and inc: "a_heroes tas ta |\<subseteq>| pool tas'"
    and c: "len (a_heroes tas ta) \<le> a_size tas ta"
  shows "a_size tas' ta + len (a_heroes tas ta) \<le> a_size tas ta"
proof -
  have "heroes (alliance ta) |\<subseteq>| pool tas'"
    using sub inc by (auto simp: a_heroes_def)
  then have "p_heroes tas' ta = heroes (alliance ta)"
    by (auto simp: p_heroes_def)
  moreover have "len (heroes (alliance ta)) = len (p_heroes tas ta) + len (a_heroes tas ta)"
    using len_split[of "heroes (alliance ta)" "pool tas"] by (simp add: p_heroes_def a_heroes_def)
  ultimately show ?thesis
    using c by (simp add: a_size_max)
qed

lemma fold_collect_mem:
  "x |\<in>| fold (\<lambda>ta acc. if c ta then acc |\<union>| f ta else acc) xs A
     \<longleftrightarrow> x |\<in>| A \<or> (\<exists>ta \<in> set xs. c ta \<and> x |\<in>| f ta)"
  by (induction xs arbitrary: A) auto

lemma fold_collect_len:
  "len (fold (\<lambda>ta acc. if c ta then acc |\<union>| f ta else acc) xs A)
     \<le> len A + sum_list (map (\<lambda>ta. if c ta then len (f ta) else 0) xs)"
proof (induction xs arbitrary: A)
  case Nil
  then show ?case by simp
next
  case (Cons a xs)
  show ?case
  proof (cases "c a")
    case True
    have "len (fold (\<lambda>ta acc. if c ta then acc |\<union>| f ta else acc) xs (A |\<union>| f a))
          \<le> len (A |\<union>| f a) + sum_list (map (\<lambda>ta. if c ta then len (f ta) else 0) xs)"
      by (rule Cons.IH)
    with True len_union_le[of A "f a"] show ?thesis by simp
  next
    case False
    with Cons.IH[of A] show ?thesis by simp
  qed
qed

section \<open>The container and the convergence pass\<close>

subsection \<open>The container\<close>

lemma setitem_new: "alliance v \<notin> alliance ` set xs \<Longrightarrow> setitem xs v = xs @ [v]"
  by (induction xs) auto

lemma set_setitem_keys: "alliance ` set (setitem xs v) = insert (alliance v) (alliance ` set xs)"
  by (induction xs) auto

lemma keys_setitem: "set (map alliance (setitem xs v)) = insert (alliance v) (set (map alliance xs))"
  using set_setitem_keys[of xs v] by simp

lemma find_alliance: "find (\<lambda>ta. alliance ta = al) xs = Some ta \<Longrightarrow> alliance ta = al \<and> ta \<in> set xs"
  by (induction xs) (auto split: if_splits)

lemma find_None_keys: "find (\<lambda>ta. alliance ta = al) xs = None \<longleftrightarrow> al \<notin> alliance ` set xs"
  by (induction xs) auto

lemma contains_find: "contains tas al \<longleftrightarrow> find (\<lambda>ta. alliance ta = al) (entries tas) \<noteq> None"
  by (simp add: contains_def keys_def find_None_keys)

lemma getitem_entries:
  "entries (snd (getitem tas al)) =
     (if contains tas al then entries tas else entries tas @ [from_empty al])"
proof (cases "find (\<lambda>ta. alliance ta = al) (entries tas)")
  case None
  then have "al \<notin> alliance ` set (entries tas)" by (simp add: find_None_keys)
  then have "setitem (entries tas) (from_empty al) = entries tas @ [from_empty al]"
    by (intro setitem_new) (simp add: from_empty_def)
  with None show ?thesis by (simp add: getitem_def contains_find)
next
  case (Some ta)
  then show ?thesis by (simp add: getitem_def contains_find)
qed

lemma getitem_sets [simp]:
  "team (snd (getitem tas al)) = team tas" "mixed (snd (getitem tas al)) = mixed tas"
  "pool (snd (getitem tas al)) = pool tas"
  by (auto simp: getitem_def pool_def split: option.splits)

lemma getitem_alliance [simp]: "alliance (fst (getitem tas al)) = al"
  by (auto simp: getitem_def from_empty_def split: option.splits dest: find_alliance)

lemma getitem_present: "contains tas al \<Longrightarrow> snd (getitem tas al) = tas"
  by (auto simp: getitem_def contains_find split: option.splits)

lemma getitem_keys: "set (keys (snd (getitem tas al))) = insert al (set (keys tas))"
  by (auto simp: getitem_entries keys_def contains_def from_empty_def)

lemma a_size_from_empty [simp]: "a_size tas (from_empty al) = 0"
  by (simp add: a_size_max total_size_def from_empty_def)

lemma size_tas_getitem [simp]: "size_tas (snd (getitem tas al)) = size_tas tas"
proof -
  have "(\<lambda>ta. max 0 (a_size (snd (getitem tas al)) ta)) = (\<lambda>ta. max 0 (a_size tas ta))"
    by (simp add: a_size_def p_size_def p_heroes_def)
  then show ?thesis
    by (simp add: size_tas_def getitem_entries)
qed

lemma size_tas_sum: "size_tas tas = len (team tas) + len (mixed tas) + sum_list (map (a_size tas) (entries tas))"
proof -
  have "(\<lambda>ta. max 0 (a_size tas ta)) = a_size tas" by (simp add: fun_eq_iff max_def)
  then show ?thesis by (simp add: size_tas_def)
qed

subsection \<open>The first pass: outstanding heroes become mixed\<close>

lemma post_add_mixed_fields [simp]:
  "tsize (post_add_mixed t) = tsize t" "limit (post_add_mixed t) = limit t"
  "team (alliances (post_add_mixed t)) = team (alliances t)"
  "entries (alliances (post_add_mixed t)) = entries (alliances t)"
  by (simp_all add: post_add_mixed_def Let_def)

lemma post_add_mixed_mem:
  "x |\<in>| mixed (alliances (post_add_mixed t)) \<longleftrightarrow>
     x |\<in>| mixed (alliances t) \<or>
     (\<exists>ta \<in> set (entries (alliances t)).
        len (a_heroes (alliances t) ta) \<le> a_size (alliances t) ta \<and> x |\<in>| a_heroes (alliances t) ta)"
  by (simp add: post_add_mixed_def Let_def fold_collect_mem)

lemma post_add_mixed_pool: "pool (alliances t) |\<subseteq>| pool (alliances (post_add_mixed t))"
  by (auto simp: pool_def post_add_mixed_mem)

lemma post_add_mixed_size: "size_tas (alliances (post_add_mixed t)) \<le> size_tas (alliances t)"
proof -
  let ?tas = "alliances t" and ?tas' = "alliances (post_add_mixed t)"
  let ?c = "\<lambda>ta. len (a_heroes ?tas ta) \<le> a_size ?tas ta"
  let ?U = "fold (\<lambda>ta acc. if ?c ta then acc |\<union>| a_heroes ?tas ta else acc) (entries ?tas) {||}"
  let ?g = "\<lambda>ta. if ?c ta then len (a_heroes ?tas ta) else 0"
  have mixed': "mixed ?tas' = mixed ?tas |\<union>| ?U"
    by (simp add: post_add_mixed_def Let_def)
  have "len (mixed ?tas') \<le> len (mixed ?tas) + len ?U"
    unfolding mixed' by (rule len_union_le)
  moreover have "len ?U \<le> sum_list (map ?g (entries ?tas))"
    using fold_collect_len[of ?c "a_heroes ?tas" "entries ?tas" "{||}"] by simp
  moreover have "sum_list (map (\<lambda>ta. a_size ?tas' ta + ?g ta) (entries ?tas))
                 \<le> sum_list (map (a_size ?tas) (entries ?tas))"
  proof (rule sum_list_mono)
    fix ta assume ta: "ta \<in> set (entries ?tas)"
    show "a_size ?tas' ta + ?g ta \<le> a_size ?tas ta"
    proof (cases "?c ta")
      case True
      have "a_heroes ?tas ta |\<subseteq>| pool ?tas'"
        using ta True by (auto simp: pool_def post_add_mixed_mem)
      from a_size_absorb[OF post_add_mixed_pool this True] True show ?thesis by simp
    next
      case False
      with a_size_antimono[OF post_add_mixed_pool, of t ta] show ?thesis by simp
    qed
  qed
  ultimately show ?thesis
    by (simp add: size_tas_sum sum_list_addf)
qed

subsection \<open>The second pass: mixed heroes become team heroes\<close>

lemma post_add_team_fields [simp]:
  "tsize (post_add_team t) = tsize t" "limit (post_add_team t) = limit t"
  "entries (alliances (post_add_team t)) = entries (alliances t)"
  by (simp_all add: post_add_team_def Let_def)

lemma post_add_team_team:
  "x |\<in>| team (alliances (post_add_team t)) \<longleftrightarrow>
     x |\<in>| team (alliances t) \<or>
     (\<exists>ta \<in> set (entries (alliances t)).
        len (m_heroes (alliances t) ta) \<le> m_size (alliances t) ta \<and> x |\<in>| m_heroes (alliances t) ta)"
  by (simp add: post_add_team_def Let_def fold_collect_mem)

lemma post_add_team_mixed:
  "x |\<in>| mixed (alliances (post_add_team t)) \<longleftrightarrow>
     x |\<in>| mixed (alliances t) \<and>
     \<not> (\<exists>ta \<in> set (entries (alliances t)).
        len (m_heroes (alliances t) ta) \<le> m_size (alliances t) ta \<and> x |\<in>| m_heroes (alliances t) ta)"
  by (simp add: post_add_team_def Let_def fold_collect_mem)

lemma post_add_team_pool [simp]: "pool (alliances (post_add_team t)) = pool (alliances t)"
  by (auto simp: pool_def post_add_team_team post_add_team_mixed m_heroes_def)

lemma post_add_team_disjoint: "disjoint t \<Longrightarrow> disjoint (post_add_team t)"
  unfolding disjoint_def
  by (auto simp: post_add_team_team post_add_team_mixed m_heroes_def)

lemma a_size_pool: "pool tas' = pool tas \<Longrightarrow> a_size tas' ta = a_size tas ta"
  by (simp add: a_size_def p_size_def p_heroes_def)

lemma post_add_team_size: "size_tas (alliances (post_add_team t)) \<le> size_tas (alliances t)"
proof -
  let ?tas = "alliances t" and ?tas' = "alliances (post_add_team t)"
  let ?X = "fold (\<lambda>ta acc. if len (m_heroes ?tas ta) \<le> m_size ?tas ta
                            then acc |\<union>| m_heroes ?tas ta else acc) (entries ?tas) {||}"
  have tm: "team ?tas' = team ?tas |\<union>| ?X" and mx: "mixed ?tas' = mixed ?tas |-| ?X"
    by (simp_all add: post_add_team_def Let_def)
  have sub: "?X |\<subseteq>| mixed ?tas"
    by (auto simp: fold_collect_mem m_heroes_def)
  have "len (mixed ?tas) = len (mixed ?tas |\<inter>| ?X) + len (mixed ?tas |-| ?X)"
    by (rule len_split)
  moreover have "mixed ?tas |\<inter>| ?X = ?X" using sub by auto
  moreover have "len (team ?tas |\<union>| ?X) \<le> len (team ?tas) + len ?X" by (rule len_union_le)
  moreover have "a_size ?tas' = a_size ?tas"
    by (rule ext) (rule a_size_pool[OF post_add_team_pool])
  ultimately show ?thesis
    by (simp add: size_tas_sum tm mx)
qed

subsection \<open>The third pass: levels are raised\<close>

lemma set_level_sets [simp]:
  "team (set_level tas al lv) = team tas" "mixed (set_level tas al lv) = mixed tas"
  "pool (set_level tas al lv) = pool tas"
  by (simp_all add: set_level_def pool_def)

lemma set_level_keys [simp]: "keys (set_level tas al lv) = keys tas"
  by (simp add: set_level_def keys_def comp_def if_distrib[of alliance])

lemma raise_level_fields [simp]:
  "team (alliances (raise_level al hs t)) = team (alliances t)"
  "mixed (alliances (raise_level al hs t)) = mixed (alliances t)"
  "pool (alliances (raise_level al hs t)) = pool (alliances t)"
  "tsize (raise_level al hs t) = tsize t" "limit (raise_level al hs t) = limit t"
  by (cases "getitem (alliances t) al"; simp add: raise_level_def Let_def pool_def;
      metis getitem_sets snd_conv)+

lemma raise_level_keys:
  "set (keys (alliances (raise_level al hs t))) =
     (if int (length hs) div level al \<noteq> 0 then insert al (set (keys (alliances t)))
      else set (keys (alliances t)))"
  using getitem_keys[of "alliances t" al]
  by (cases "getitem (alliances t) al") (simp add: raise_level_def Let_def)

lemma raise_levels_Inr:
  "raise_levels d t = Inr t' \<Longrightarrow>
     team (alliances t') = team (alliances t) \<and> mixed (alliances t') = mixed (alliances t) \<and>
     tsize t' = tsize t \<and> limit t' = limit t \<and> set (keys (alliances t)) \<subseteq> set (keys (alliances t'))"
proof (induction d arbitrary: t)
  case Nil
  then show ?case by simp
next
  case (Cons p d)
  obtain al hs where p: "p = (al, hs)" by (cases p)
  from Cons.prems p have "raise_levels d (raise_level al hs t) = Inr t'"
    by (simp split: if_splits)
  from Cons.IH[OF this] show ?case
    by (auto simp: raise_level_keys split: if_splits)
qed


lemma a_size_raised:
  assumes "level (alliance ta) * lv \<le> len (heroes (alliance ta) |\<inter>| pool tas)"
  shows "a_size tas (ta\<lparr>ta_level := lv\<rparr>) = 0"
  using assms by (simp add: a_size_max total_size_def p_heroes_def)

lemma mult_div_le_int: "0 < (k::int) \<Longrightarrow> k * (a div k) \<le> a"
  by (metis mult.commute div_mult_mod_eq add_increasing2 order_refl pos_mod_sign)

lemma size_tas_set_level:
  assumes "level al * lv \<le> len (heroes al |\<inter>| pool tas)"
  shows "size_tas (set_level tas al lv) \<le> size_tas tas"
proof -
  let ?f = "\<lambda>ta. if alliance ta = al then ta\<lparr>ta_level := lv\<rparr> else ta"
  have eq: "a_size (set_level tas al lv) = a_size tas"
    by (rule ext) (rule a_size_pool, simp)
  have "sum_list (map (\<lambda>ta. a_size tas (?f ta)) (entries tas)) \<le> sum_list (map (a_size tas) (entries tas))"
  proof (rule sum_list_mono)
    fix ta assume "ta \<in> set (entries tas)"
    show "a_size tas (?f ta) \<le> a_size tas ta"
      using assms a_size_raised[of ta lv tas] by auto
  qed
  then show ?thesis
    by (simp add: size_tas_sum eq) (simp add: set_level_def comp_def)
qed

lemma raise_level_size:
  assumes k: "0 < level al"
    and c: "int (length hs) \<le> len (heroes al |\<inter>| pool (alliances t))"
  shows "size_tas (alliances (raise_level al hs t)) \<le> size_tas (alliances t)"
proof -
  let ?lv = "int (length hs) div level al"
  obtain ta tas where g: "getitem (alliances t) al = (ta, tas)"
    by (cases "getitem (alliances t) al")
  then have tas: "tas = snd (getitem (alliances t) al)" by simp
  have "level al * ?lv \<le> len (heroes al |\<inter>| pool tas)"
    using mult_div_le_int[OF k, of "int (length hs)"] c by (simp add: tas)
  from size_tas_set_level[OF this] have "size_tas (set_level tas al ?lv) \<le> size_tas (alliances t)"
    by (simp add: tas)
  moreover have "size_tas tas = size_tas (alliances t)" by (simp add: tas)
  ultimately show ?thesis
    using g by (simp add: raise_level_def Let_def)
qed

lemma raise_levels_size:
  assumes "raise_levels d t = Inr t'"
    and "\<forall>(al, hs) \<in> set d. 0 < level al \<and> int (length hs) \<le> len (heroes al |\<inter>| pool (alliances t))"
  shows "size_tas (alliances t') \<le> size_tas (alliances t)"
  using assms
proof (induction d arbitrary: t)
  case Nil
  then show ?case by simp
next
  case (Cons p d)
  obtain al hs where p: "p = (al, hs)" by (cases p)
  from Cons.prems p have k: "0 < level al"
    and c: "int (length hs) \<le> len (heroes al |\<inter>| pool (alliances t))" by auto
  from Cons.prems(1) p k have r: "raise_levels d (raise_level al hs t) = Inr t'" by simp
  have "size_tas (alliances t') \<le> size_tas (alliances (raise_level al hs t))"
    using Cons.prems(2) by (intro Cons.IH[OF r]) simp
  with raise_level_size[OF k c] show ?case by simp
qed

subsection \<open>Grouping the team heroes by alliance\<close>

lemma setdefault_append_set:
  "(k, v) \<in> set (setdefault_append d al h) \<Longrightarrow>
     (k, v) \<in> set d \<or> (k = al \<and> (v = [h] \<or> (\<exists>hs. (al, hs) \<in> set d \<and> v = hs @ [h])))"
  by (induction d al h rule: setdefault_append.induct) (auto split: if_splits)

lemma group_inner:
  assumes "\<forall>(k, v) \<in> set d. 0 < level k \<and> distinct v \<and> set v \<subseteq> insert h V \<inter> fset (heroes k)
             \<and> (h \<in> set v \<longrightarrow> k \<in> A)"
    and "distinct als" "set als \<inter> A = {}"
    and "\<forall>al \<in> set als. h |\<in>| heroes al \<and> 0 < level al"
  shows "\<forall>(k, v) \<in> set (fold (\<lambda>al d'. setdefault_append d' al h) als d).
           0 < level k \<and> distinct v \<and> set v \<subseteq> insert h V \<inter> fset (heroes k)"
  using assms
proof (induction als arbitrary: d A)
  case Nil
  then show ?case by auto
next
  case (Cons al als)
  have "\<forall>(k, v) \<in> set (setdefault_append d al h).
          0 < level k \<and> distinct v \<and> set v \<subseteq> insert h V \<inter> fset (heroes k)
          \<and> (h \<in> set v \<longrightarrow> k \<in> insert al A)"
  proof (clarify)
    fix k v assume "(k, v) \<in> set (setdefault_append d al h)"
    from setdefault_append_set[OF this]
    consider (old) "(k, v) \<in> set d" | (new) "k = al" "v = [h]"
      | (app) hs where "k = al" "(al, hs) \<in> set d" "v = hs @ [h]"
      by blast
    then show "0 < level k \<and> distinct v \<and> set v \<subseteq> insert h V \<inter> fset (heroes k)
          \<and> (h \<in> set v \<longrightarrow> k \<in> insert al A)"
    proof cases
      case old
      with Cons.prems(1) show ?thesis by fastforce
    next
      case new
      with Cons.prems(4) show ?thesis by simp
    next
      case app
      from Cons.prems(1) app(2)
      have hs: "0 < level al \<and> distinct hs \<and> set hs \<subseteq> insert h V \<inter> fset (heroes al)
                \<and> (h \<in> set hs \<longrightarrow> al \<in> A)"
        by fastforce
      moreover from Cons.prems(3) have "al \<notin> A" by auto
      ultimately have "h \<notin> set hs" by blast
      with hs app Cons.prems(4) show ?thesis by auto
    qed
  qed
  moreover have "distinct als" "set als \<inter> insert al A = {}"
    "\<forall>al \<in> set als. h |\<in>| heroes al \<and> 0 < level al"
    using Cons.prems by auto
  ultimately show ?case
    using Cons.IH[of "setdefault_append d al h" "insert al A"] by simp
qed

lemma group_outer:
  assumes "\<forall>(k, v) \<in> set d. 0 < level k \<and> distinct v \<and> set v \<subseteq> V \<inter> fset (heroes k)"
    and "distinct hs" "set hs \<inter> V = {}"
    and "\<forall>h. distinct (hal h) \<and> (\<forall>al \<in> set (hal h). h |\<in>| heroes al \<and> 0 < level al)"
  shows "\<forall>(k, v) \<in> set (fold (\<lambda>h d. fold (\<lambda>al d'. setdefault_append d' al h) (hal h) d) hs d).
           0 < level k \<and> distinct v \<and> set v \<subseteq> (V \<union> set hs) \<inter> fset (heroes k)"
  using assms
proof (induction hs arbitrary: d V)
  case Nil
  then show ?case by simp
next
  case (Cons h hs)
  have "\<forall>(k, v) \<in> set d. 0 < level k \<and> distinct v \<and> set v \<subseteq> insert h V \<inter> fset (heroes k)
             \<and> (h \<in> set v \<longrightarrow> k \<in> {})"
    using Cons.prems(1,3) by fastforce
  from group_inner[OF this, of "hal h"] Cons.prems(4)
  have "\<forall>(k, v) \<in> set (fold (\<lambda>al d'. setdefault_append d' al h) (hal h) d).
           0 < level k \<and> distinct v \<and> set v \<subseteq> insert h V \<inter> fset (heroes k)"
    by simp
  moreover have "distinct hs" "set hs \<inter> insert h V = {}" using Cons.prems(2,3) by auto
  ultimately show ?case
    using Cons.IH[of "fold (\<lambda>al d'. setdefault_append d' al h) (hal h) d" "insert h V"] Cons.prems(4)
    by simp
qed

lemma by_alliance_bound:
  assumes "loaded e" and "(al, hs) \<in> set (by_alliance e tm)"
  shows "0 < level al \<and> int (length hs) \<le> len (heroes al |\<inter>| tm)"
proof -
  have "\<forall>(k, v) \<in> set (by_alliance e tm).
          0 < level k \<and> distinct v \<and> set v \<subseteq> ({} \<union> set (iter e tm)) \<inter> fset (heroes k)"
    unfolding by_alliance_def
    using assms(1) by (intro group_outer) (auto simp: loaded_def)
  with assms(2) have k: "0 < level al" and d: "distinct hs"
    and s: "set hs \<subseteq> set (iter e tm) \<inter> fset (heroes al)" by auto
  from assms(1) have "set (iter e tm) = fset tm" by (simp add: loaded_def)
  with s have "set hs \<subseteq> fset (heroes al |\<inter>| tm)" by auto
  then have "card (set hs) \<le> card (fset (heroes al |\<inter>| tm))"
    by (intro card_mono) auto
  with d have "length hs \<le> fcard (heroes al |\<inter>| tm)"
    by (simp add: distinct_card fcard.rep_eq)
  with k show ?thesis by (simp add: len_def)
qed

subsection \<open>The convergence pass as a whole\<close>

lemma present_heroes_mem:
  "x |\<in>| present_heroes tas \<longleftrightarrow> (\<exists>al \<in> set (keys tas). x |\<in>| heroes al)"
  by (auto simp: present_heroes_def ffUnion.rep_eq fset_of_list.rep_eq)

lemma present_heroes_mono:
  "set (keys tas) \<subseteq> set (keys tas') \<Longrightarrow> present_heroes tas |\<subseteq>| present_heroes tas'"
  by (auto simp: present_heroes_mem, blast)

lemma post_add_mixed_disjoint: "disjoint t \<Longrightarrow> disjoint (post_add_mixed t)"
  unfolding disjoint_def
  by (auto simp: post_add_mixed_mem a_heroes_def pool_def)

lemma post_add_mixed_engaged:
  "pool (alliances (post_add_mixed t)) |\<subseteq>| pool (alliances t) |\<union>| present_heroes (alliances t)"
  by (auto simp: pool_def post_add_mixed_mem a_heroes_def present_heroes_mem keys_def)

lemma post_add_Inr:
  assumes "post_add e t = Inr t'"
  shows "tsize t' = tsize t" and "limit t' = limit t"
    and "set (keys (alliances t)) \<subseteq> set (keys (alliances t'))"
    and "pool (alliances t) |\<subseteq>| pool (alliances t')"
    and "pool (alliances t') |\<subseteq>| pool (alliances t) |\<union>| present_heroes (alliances t)"
    and "disjoint t \<Longrightarrow> disjoint t'"
proof -
  let ?s2 = "post_add_team (post_add_mixed t)"
  from assms have r: "raise_levels (by_alliance e (team (alliances ?s2))) ?s2 = Inr t'"
    by (simp add: post_add_def post_add_alliance_def)
  note R = raise_levels_Inr[OF r]
  from R show "tsize t' = tsize t" "limit t' = limit t" by simp_all
  from R show "set (keys (alliances t)) \<subseteq> set (keys (alliances t'))"
    by (simp add: keys_def)
  have "pool (alliances t') = pool (alliances ?s2)"
    using R by (simp add: pool_def)
  then have p: "pool (alliances t') = pool (alliances (post_add_mixed t))"
    by simp
  show "pool (alliances t) |\<subseteq>| pool (alliances t')"
    unfolding p by (rule post_add_mixed_pool)
  show "pool (alliances t') |\<subseteq>| pool (alliances t) |\<union>| present_heroes (alliances t)"
    unfolding p by (rule post_add_mixed_engaged)
  show "disjoint t'" if "disjoint t"
    using post_add_team_disjoint[OF post_add_mixed_disjoint[OF that]] R
    by (simp add: disjoint_def)
qed


lemma post_add_size:
  assumes "loaded e" and "post_add e t = Inr t'"
  shows "size_tas (alliances t') \<le> size_tas (alliances t)"
proof -
  let ?s2 = "post_add_team (post_add_mixed t)"
  from assms(2) have r: "raise_levels (by_alliance e (team (alliances ?s2))) ?s2 = Inr t'"
    by (simp add: post_add_def post_add_alliance_def)
  have "\<forall>(al, hs) \<in> set (by_alliance e (team (alliances ?s2))).
          0 < level al \<and> int (length hs) \<le> len (heroes al |\<inter>| pool (alliances ?s2))"
  proof clarify
    fix al hs assume "(al, hs) \<in> set (by_alliance e (team (alliances ?s2)))"
    from by_alliance_bound[OF assms(1) this]
    have k: "0 < level al" and b: "int (length hs) \<le> len (heroes al |\<inter>| team (alliances ?s2))"
      by simp_all
    have "len (heroes al |\<inter>| team (alliances ?s2)) \<le> len (heroes al |\<inter>| (team (alliances ?s2) |\<union>| mixed (alliances ?s2)))"
      by (intro len_mono) auto
    with k b show "0 < level al \<and> int (length hs) \<le> len (heroes al |\<inter>| pool (alliances ?s2))"
      by (simp add: pool_def)
  qed
  from raise_levels_size[OF r this]
  have "size_tas (alliances t') \<le> size_tas (alliances ?s2)" .
  also have "\<dots> \<le> size_tas (alliances (post_add_mixed t))" by (rule post_add_team_size)
  also have "\<dots> \<le> size_tas (alliances t)" by (rule post_add_mixed_size)
  finally show ?thesis .
qed

lemma post_check_Inr: "post_check t p = Inr t' \<Longrightarrow> t' = t"
  by (simp add: post_check_def split: if_splits)


subsection \<open>Running the convergence pass again\<close>

lemma fold_collect_empty:
  assumes "\<forall>ta \<in> set xs. c ta \<longrightarrow> f ta = {||}"
  shows "fold (\<lambda>ta acc. if c ta then acc |\<union>| f ta else acc) xs {||} = {||}"
proof -
  have "x |\<notin>| fold (\<lambda>ta acc. if c ta then acc |\<union>| f ta else acc) xs {||}" for x
    using assms by (auto simp: fold_collect_mem)
  then show ?thesis by auto
qed

lemma a_heroes_settled:
  assumes sub: "pool tas |\<subseteq>| pool tas'"
    and inc: "len (a_heroes tas ta) \<le> a_size tas ta \<Longrightarrow> a_heroes tas ta |\<subseteq>| pool tas'"
    and c': "len (a_heroes tas' ta) \<le> a_size tas' ta"
  shows "a_heroes tas' ta = {||}"
proof (cases "len (a_heroes tas ta) \<le> a_size tas ta")
  case True
  from inc[OF True] sub show ?thesis by (auto simp: a_heroes_def)
next
  case False
  let ?H = "heroes (alliance ta)"
  have s: "len ?H = len (p_heroes tas ta) + len (a_heroes tas ta)"
    using len_split[of ?H "pool tas"] by (simp add: p_heroes_def a_heroes_def)
  have s': "len ?H = len (p_heroes tas' ta) + len (a_heroes tas' ta)"
    using len_split[of ?H "pool tas'"] by (simp add: p_heroes_def a_heroes_def)
  from False have "total_size ta < len ?H" unfolding a_size_max s by linarith
  with c' s' have "len (a_heroes tas' ta) \<le> 0" unfolding a_size_max by linarith
  then show ?thesis by simp
qed

lemma len_pool_split:
  assumes "team tas |\<inter>| mixed tas = {||}"
  shows "len (p_heroes tas ta) = len (t_heroes tas ta) + len (m_heroes tas ta)"
proof -
  have "t_heroes tas ta |\<inter>| m_heroes tas ta = {||}"
    using assms by (auto simp: t_heroes_def m_heroes_def)
  moreover have "p_heroes tas ta = t_heroes tas ta |\<union>| m_heroes tas ta"
    by (auto simp: p_heroes_def t_heroes_def m_heroes_def pool_def)
  ultimately show ?thesis by (simp add: len_union_disj)
qed

lemma m_heroes_settled:
  assumes d: "team tas |\<inter>| mixed tas = {||}" and d': "team tas' |\<inter>| mixed tas' = {||}"
    and p: "pool tas' = pool tas"
    and prev: "len (m_heroes tas ta) \<le> m_size tas ta \<Longrightarrow> m_heroes tas' ta = {||}"
    and c': "len (m_heroes tas' ta) \<le> m_size tas' ta"
  shows "m_heroes tas' ta = {||}"
proof (rule ccontr)
  assume ne: "m_heroes tas' ta \<noteq> {||}"
  then have pos: "0 < len (m_heroes tas' ta)"
    using len_le_0[of "m_heroes tas' ta"] by linarith
  have pp: "p_heroes tas' ta = p_heroes tas ta" by (simp add: p_heroes_def p)
  note s = len_pool_split[OF d, of ta] and s' = len_pool_split[OF d', of ta]
  show False
  proof (cases "len (p_heroes tas ta) \<le> total_size ta")
    case True
    then have "len (m_heroes tas ta) \<le> m_size tas ta"
      using s by (simp add: m_size_def p_size_def t_size_def total_size_def)
    from prev[OF this] ne show False by simp
  next
    case False
    with c' pos s' show False
      by (simp add: m_size_def p_size_def t_size_def total_size_def pp min_def split: if_splits)
  qed
qed

lemma covered_sizes:
  assumes "total_size ta \<le> len (t_heroes tas ta)"
  shows "a_size tas ta = 0" and "m_size tas ta = 0"
proof -
  have "t_heroes tas ta |\<subseteq>| p_heroes tas ta"
    by (auto simp: t_heroes_def p_heroes_def pool_def)
  then have "len (t_heroes tas ta) \<le> len (p_heroes tas ta)" by (rule len_mono)
  with assms show "a_size tas ta = 0" "m_size tas ta = 0"
    by (simp_all add: a_size_max m_size_def p_size_def t_size_def total_size_def)
qed

lemma raise_level_entries:
  assumes k: "0 < level al"
    and c: "int (length hs) \<le> len (heroes al |\<inter>| team (alliances t))"
    and ta: "ta \<in> set (entries (alliances (raise_level al hs t)))"
  shows "ta \<in> set (entries (alliances t)) \<or> total_size ta \<le> len (t_heroes (alliances t) ta)"
proof -
  let ?lv = "int (length hs) div level al"
  obtain ta0 tas where g: "getitem (alliances t) al = (ta0, tas)"
    by (cases "getitem (alliances t) al")
  then have tas: "tas = snd (getitem (alliances t) al)" by simp
  have e: "set (entries tas) \<subseteq> insert (from_empty al) (set (entries (alliances t)))"
    by (auto simp: tas getitem_entries)
  have z: "total_size (from_empty al) \<le> len (t_heroes (alliances t) (from_empty al))"
    by (simp add: total_size_def from_empty_def)
  have lv: "level al * ?lv \<le> len (heroes al |\<inter>| team (alliances t))"
    using mult_div_le_int[OF k, of "int (length hs)"] c by simp
  show ?thesis
  proof (cases "?lv \<noteq> 0 \<and> ?lv > ta_level ta0")
    case True
    with ta g have "ta \<in> set (entries (set_level tas al ?lv))"
      by (simp add: raise_level_def Let_def)
    then obtain x where x: "x \<in> set (entries tas)"
      and tx: "ta = (if alliance x = al then x\<lparr>ta_level := ?lv\<rparr> else x)"
      by (auto simp: set_level_def)
    show ?thesis
    proof (cases "alliance x = al")
      case True
      with tx lv show ?thesis by (simp add: total_size_def t_heroes_def)
    next
      case False
      with tx x e have "ta \<in> set (entries (alliances t))"
        by (auto simp: from_empty_def)
      then show ?thesis by simp
    qed
  next
    case False
    with ta g have "ta \<in> set (entries (alliances t)) \<or> ta \<in> set (entries tas)"
      by (auto simp: raise_level_def Let_def split: if_splits)
    with e z show ?thesis by auto
  qed
qed

lemma raise_levels_entries:
  assumes "raise_levels d t = Inr t'"
    and "\<forall>(al, hs) \<in> set d. 0 < level al \<and> int (length hs) \<le> len (heroes al |\<inter>| team (alliances t))"
    and "ta \<in> set (entries (alliances t'))"
  shows "ta \<in> set (entries (alliances t)) \<or> total_size ta \<le> len (t_heroes (alliances t) ta)"
  using assms
proof (induction d arbitrary: t)
  case Nil
  then show ?case by simp
next
  case (Cons p d)
  obtain al hs where p: "p = (al, hs)" by (cases p)
  from Cons.prems(2) p have k: "0 < level al"
    and c: "int (length hs) \<le> len (heroes al |\<inter>| team (alliances t))" by auto
  from Cons.prems(1) p k have r: "raise_levels d (raise_level al hs t) = Inr t'" by simp
  have "ta \<in> set (entries (alliances (raise_level al hs t)))
        \<or> total_size ta \<le> len (t_heroes (alliances (raise_level al hs t)) ta)"
    using Cons.prems(2,3) by (intro Cons.IH[OF r]) simp_all
  then show ?case
    using raise_level_entries[OF k c, of ta] by (auto simp: t_heroes_def)
qed

lemma find_app:
  "find P (xs @ ys) = (case find P xs of Some x \<Rightarrow> Some x | None \<Rightarrow> find P ys)"
  by (induction xs) auto

lemma find_map_same:
  assumes "\<And>x. P (f x) = P x"
  shows "find P (map f xs) = map_option f (find P xs)"
  by (induction xs) (auto simp: assms)

lemma getitem_find:
  "find (\<lambda>ta. alliance ta = al) (entries (snd (getitem tas al))) = Some (fst (getitem tas al))"
proof (cases "find (\<lambda>ta. alliance ta = al) (entries tas)")
  case None
  then have "\<not> contains tas al" by (simp add: contains_find)
  with None show ?thesis
    by (simp add: getitem_entries find_app) (simp add: getitem_def from_empty_def)
next
  case (Some ta)
  then show ?thesis by (simp add: getitem_def)
qed

lemma getitem_find_other:
  assumes "find (\<lambda>ta. alliance ta = k) (entries tas) = Some ta"
  shows "find (\<lambda>ta. alliance ta = k) (entries (snd (getitem tas al))) = Some ta"
  using assms by (simp add: getitem_entries find_app)

lemma set_level_find:
  "find (\<lambda>ta. alliance ta = k) (entries (set_level tas al lv)) =
     map_option (\<lambda>ta. if alliance ta = al then ta\<lparr>ta_level := lv\<rparr> else ta)
       (find (\<lambda>ta. alliance ta = k) (entries tas))"
  unfolding set_level_def
  by (simp add: find_map_same[where P = "\<lambda>ta. alliance ta = k"])

lemma raise_level_reaches:
  assumes "int (length hs) div level al \<noteq> 0"
  shows "\<exists>ta. find (\<lambda>ta. alliance ta = al) (entries (alliances (raise_level al hs t))) = Some ta
              \<and> int (length hs) div level al \<le> ta_level ta"
proof -
  let ?lv = "int (length hs) div level al"
  obtain ta0 tas where g: "getitem (alliances t) al = (ta0, tas)"
    by (cases "getitem (alliances t) al")
  with getitem_find[of al "alliances t"]
  have f: "find (\<lambda>ta. alliance ta = al) (entries tas) = Some ta0" by simp
  then have a0: "alliance ta0 = al" by (auto dest: find_alliance)
  show ?thesis
  proof (cases "?lv > ta_level ta0")
    case True
    with assms g have "alliances (raise_level al hs t) = set_level tas al ?lv"
      by (simp add: raise_level_def Let_def)
    then show ?thesis by (simp add: set_level_find f a0)
  next
    case False
    with assms g have "alliances (raise_level al hs t) = tas"
      by (simp add: raise_level_def Let_def)
    with f False show ?thesis by simp
  qed
qed

lemma raise_level_find_mono:
  assumes "find (\<lambda>ta. alliance ta = k) (entries (alliances t)) = Some ta"
  shows "\<exists>ta'. find (\<lambda>ta. alliance ta = k) (entries (alliances (raise_level al hs t))) = Some ta'
               \<and> ta_level ta \<le> ta_level ta'"
proof -
  let ?lv = "int (length hs) div level al"
  obtain ta0 tas where g: "getitem (alliances t) al = (ta0, tas)"
    by (cases "getitem (alliances t) al")
  with getitem_find_other[OF assms, of al]
  have f: "find (\<lambda>ta. alliance ta = k) (entries tas) = Some ta" by simp
  from g getitem_find[of al "alliances t"]
  have f0: "find (\<lambda>ta. alliance ta = al) (entries tas) = Some ta0" by simp
  show ?thesis
  proof (cases "?lv \<noteq> 0 \<and> ?lv > ta_level ta0")
    case True
    with g have "alliances (raise_level al hs t) = set_level tas al ?lv"
      by (simp add: raise_level_def Let_def)
    moreover have "alliance ta = al \<Longrightarrow> ta = ta0"
      using f f0 find_alliance[OF assms] by auto
    ultimately show ?thesis using True by (auto simp: set_level_find f)
  next
    case False
    with g have "alliances (raise_level al hs t) = tas \<or> raise_level al hs t = t"
      by (auto simp: raise_level_def Let_def)
    with f assms show ?thesis by auto
  qed
qed

lemma raise_levels_find_mono:
  assumes "raise_levels d t = Inr t'"
    and "find (\<lambda>ta. alliance ta = k) (entries (alliances t)) = Some ta"
  shows "\<exists>ta'. find (\<lambda>ta. alliance ta = k) (entries (alliances t')) = Some ta'
               \<and> ta_level ta \<le> ta_level ta'"
  using assms
proof (induction d arbitrary: t ta)
  case Nil
  then show ?case by simp
next
  case (Cons p d)
  obtain al hs where p: "p = (al, hs)" by (cases p)
  from Cons.prems(1) p have r: "raise_levels d (raise_level al hs t) = Inr t'"
    by (simp split: if_splits)
  from raise_level_find_mono[OF Cons.prems(2), of al hs]
  obtain ta1 where ta1: "find (\<lambda>ta. alliance ta = k) (entries (alliances (raise_level al hs t))) = Some ta1"
    "ta_level ta \<le> ta_level ta1" by blast
  from Cons.IH[OF r ta1(1)] ta1(2) show ?case by fastforce
qed

lemma raise_levels_settles:
  assumes "raise_levels d t = Inr t'" and "(al, hs) \<in> set d"
  shows "level al \<noteq> 0 \<and>
         (int (length hs) div level al \<noteq> 0 \<longrightarrow>
            (\<exists>ta. find (\<lambda>ta. alliance ta = al) (entries (alliances t')) = Some ta
                  \<and> int (length hs) div level al \<le> ta_level ta))"
  using assms
proof (induction d arbitrary: t)
  case Nil
  then show ?case by simp
next
  case (Cons p d)
  obtain al0 hs0 where p: "p = (al0, hs0)" by (cases p)
  from Cons.prems(1) p have nz: "level al0 \<noteq> 0"
    and r: "raise_levels d (raise_level al0 hs0 t) = Inr t'"
    by (simp_all split: if_splits)
  show ?case
  proof (cases "(al, hs) \<in> set d")
    case True
    from Cons.IH[OF r True] show ?thesis .
  next
    case False
    with Cons.prems(2) p have eq: "al0 = al" "hs0 = hs" by auto
    show ?thesis
    proof (intro conjI impI)
      show "level al \<noteq> 0" using nz eq by simp
      assume "int (length hs) div level al \<noteq> 0"
      from raise_level_reaches[OF this, of t]
      obtain ta1 where "find (\<lambda>ta. alliance ta = al) (entries (alliances (raise_level al hs t))) = Some ta1"
        "int (length hs) div level al \<le> ta_level ta1" by blast
      with raise_levels_find_mono[OF r, of al ta1] eq
      show "\<exists>ta. find (\<lambda>ta. alliance ta = al) (entries (alliances t')) = Some ta
                  \<and> int (length hs) div level al \<le> ta_level ta"
        by fastforce
    qed
  qed
qed

lemma raise_level_fixed:
  assumes "int (length hs) div level al \<noteq> 0 \<longrightarrow>
            (\<exists>ta. find (\<lambda>ta. alliance ta = al) (entries (alliances t)) = Some ta
                  \<and> int (length hs) div level al \<le> ta_level ta)"
  shows "raise_level al hs t = t"
proof (cases "int (length hs) div level al = 0")
  case True
  then show ?thesis by (simp add: raise_level_def)
next
  case False
  with assms obtain ta where "find (\<lambda>ta. alliance ta = al) (entries (alliances t)) = Some ta"
    "int (length hs) div level al \<le> ta_level ta" by blast
  then show ?thesis
    by (simp add: raise_level_def Let_def getitem_def)
qed

lemma raise_levels_fixed:
  assumes "\<forall>(al, hs) \<in> set d. level al \<noteq> 0 \<and>
         (int (length hs) div level al \<noteq> 0 \<longrightarrow>
            (\<exists>ta. find (\<lambda>ta. alliance ta = al) (entries (alliances t)) = Some ta
                  \<and> int (length hs) div level al \<le> ta_level ta))"
  shows "raise_levels d t = Inr t"
  using assms
proof (induction d)
  case Nil
  then show ?case by simp
next
  case (Cons p d)
  obtain al hs where p: "p = (al, hs)" by (cases p)
  from Cons.prems p have "level al \<noteq> 0" and "raise_level al hs t = t"
    by (auto intro!: raise_level_fixed)
  with Cons p show ?case by simp
qed

lemma raise_levels_idem: "raise_levels d t = Inr t' \<Longrightarrow> raise_levels d t' = Inr t'"
  by (rule raise_levels_fixed) (auto dest: raise_levels_settles)

lemma post_add_idem:
  assumes ld: "loaded e" and dj: "disjoint t" and pa: "post_add e t = Inr t'"
  shows "post_add e t' = Inr t'"
proof -
  let ?s1 = "post_add_mixed t"
  let ?s2 = "post_add_team ?s1"
  let ?d = "by_alliance e (team (alliances ?s2))"
  from pa have r: "raise_levels ?d ?s2 = Inr t'"
    by (simp add: post_add_def post_add_alliance_def)
  note R = raise_levels_Inr[OF r]
  have tm: "team (alliances t') = team (alliances ?s2)"
    and mx: "mixed (alliances t') = mixed (alliances ?s2)" using R by simp_all
  have pool': "pool (alliances t') = pool (alliances ?s1)"
    using tm mx post_add_team_pool[of ?s1] by (simp add: pool_def)
  have d1: "disjoint ?s1" using dj by (rule post_add_mixed_disjoint)
  have d': "disjoint t'" using post_add_Inr(6)[OF pa dj] .
  have bound: "\<forall>(al, hs) \<in> set ?d. 0 < level al
                 \<and> int (length hs) \<le> len (heroes al |\<inter>| team (alliances ?s2))"
    using by_alliance_bound[OF ld] by blast
  have ent: "ta \<in> set (entries (alliances t)) \<or> total_size ta \<le> len (t_heroes (alliances t') ta)"
    if "ta \<in> set (entries (alliances t'))" for ta
    using raise_levels_entries[OF r bound that] tm by (simp add: t_heroes_def)
  have a: "a_heroes (alliances t') ta = {||}"
    if ta: "ta \<in> set (entries (alliances t'))"
      and c: "len (a_heroes (alliances t') ta) \<le> a_size (alliances t') ta" for ta
    using ent[OF ta]
  proof
    assume old: "ta \<in> set (entries (alliances t))"
    show ?thesis
    proof (rule a_heroes_settled[OF _ _ c])
      show "pool (alliances t) |\<subseteq>| pool (alliances t')"
        using post_add_Inr(4)[OF pa] .
      show "a_heroes (alliances t) ta |\<subseteq>| pool (alliances t')"
        if "len (a_heroes (alliances t) ta) \<le> a_size (alliances t) ta"
        using that old by (auto simp: pool' pool_def[of "alliances ?s1"] post_add_mixed_mem)
    qed
  next
    assume "total_size ta \<le> len (t_heroes (alliances t') ta)"
    from covered_sizes(1)[OF this] c show ?thesis by simp
  qed
  have m: "m_heroes (alliances t') ta = {||}"
    if ta: "ta \<in> set (entries (alliances t'))"
      and c: "len (m_heroes (alliances t') ta) \<le> m_size (alliances t') ta" for ta
    using ent[OF ta]
  proof
    assume old: "ta \<in> set (entries (alliances t))"
    show ?thesis
    proof (rule m_heroes_settled[OF _ _ pool' _ c])
      show "team (alliances ?s1) |\<inter>| mixed (alliances ?s1) = {||}"
        using d1 by (simp add: disjoint_def)
      show "team (alliances t') |\<inter>| mixed (alliances t') = {||}"
        using d' by (simp add: disjoint_def)
      show "m_heroes (alliances t') ta = {||}"
        if "len (m_heroes (alliances ?s1) ta) \<le> m_size (alliances ?s1) ta"
      proof -
        have "x |\<notin>| mixed (alliances ?s2)" if "x |\<in>| heroes (alliance ta)" for x
        proof (cases "x |\<in>| mixed (alliances ?s1)")
          case True
          with that have "x |\<in>| m_heroes (alliances ?s1) ta" by (simp add: m_heroes_def)
          with \<open>len (m_heroes (alliances ?s1) ta) \<le> m_size (alliances ?s1) ta\<close> old
          show ?thesis unfolding post_add_team_mixed by auto
        next
          case False
          then show ?thesis unfolding post_add_team_mixed by simp
        qed
        then show ?thesis by (auto simp: m_heroes_def mx)
      qed
    qed
  next
    assume "total_size ta \<le> len (t_heroes (alliances t') ta)"
    from covered_sizes(2)[OF this] c show ?thesis by simp
  qed
  have 1: "post_add_mixed t' = t'"
    using a by (simp add: post_add_mixed_def Let_def fold_collect_empty)
  have 2: "post_add_team t' = t'"
    using m by (simp add: post_add_team_def Let_def fold_collect_empty)
  from raise_levels_idem[OF r] show ?thesis
    by (simp add: post_add_def post_add_alliance_def 1 2 tm)
qed

subsection \<open>What a call of \<open>_add\<close> does\<close>

lemma overlap_fold:
  "fold (overlap_step tas al) xs (A, z) = (A', z') \<Longrightarrow>
     A |\<subseteq>| A' \<and> (\<forall>x. x |\<in>| A' \<longrightarrow> x |\<in>| A \<or> (\<exists>ta \<in> set xs. x |\<in>| heroes (alliance ta)))"
proof (induction xs arbitrary: A z)
  case Nil
  then show ?case by simp
next
  case (Cons ta xs)
  obtain B y where s: "overlap_step tas al ta (A, z) = (B, y)"
    by (cases "overlap_step tas al ta (A, z)")
  then have B: "A |\<subseteq>| B \<and> (\<forall>x. x |\<in>| B \<longrightarrow> x |\<in>| A \<or> x |\<in>| heroes (alliance ta))"
    by (auto simp: overlap_step_def Let_def split: if_splits)
  from Cons.prems s have "fold (overlap_step tas al) xs (B, y) = (A', z')" by simp
  from Cons.IH[OF this] B show ?case by auto
qed

lemma level_up_amount_nonneg [simp]: "0 \<le> level_up_amount tas ta lv tsz"
  by (simp add: level_up_amount_def Let_def)

lemma first_fit_result:
  "first_fit tas ta tsz lim sz lvs seen = (sz', r) \<Longrightarrow>
     sz \<le> sz' \<and> (sz' = sz \<or> sz' \<le> lim) \<and> (r = seen \<or> (\<exists>lv \<in> set lvs. r = Some lv))"
  by (induction lvs arbitrary: seen) (auto split: if_splits)

lemma set_tas_sets [simp]:
  "team (set_tas tas al lv) = team tas" "mixed (set_tas tas al lv) = mixed tas"
  "pool (set_tas tas al lv) = pool tas"
  by (simp_all add: set_tas_def pool_def)

lemma set_tas_keys: "set (keys (set_tas tas al lv)) = insert al (set (keys tas))"
  using keys_setitem[of "entries tas" "\<lparr>alliance = al, ta_level = lv\<rparr>"]
  by (simp add: set_tas_def keys_def)

lemma add'_Inr:
  assumes "add' e t al lvs = Inr t'"
  obtains t3 tm lv where
    "tm |\<inter>| pool (alliances t) = {||}"
    "tm |\<subseteq>| present_heroes (alliances t)"
    "alliances t3 = set_tas ((snd (getitem (alliances t) al))\<lparr>mixed := mixed (alliances t) |\<union>| tm\<rparr>) al lv"
    "limit t3 = limit t"
    "size_tas (alliances t) \<le> tsize t3"
    "size_tas (alliances t) \<le> limit t \<Longrightarrow> tsize t3 \<le> limit t"
    "size_tas (alliances t3) \<le> limit t"
    "post_add e t3 = Inr t'"
    "lv \<in> set lvs"
proof -
  let ?tas0 = "alliances t"
  obtain tm0 tsz where ov:
    "(if \<not> contains ?tas0 al then fold (overlap_step ?tas0 al) (entries ?tas0) (pool ?tas0, 0)
      else (pool ?tas0, 0)) = (tm0, tsz)"
    by (cases "(if \<not> contains ?tas0 al then fold (overlap_step ?tas0 al) (entries ?tas0) (pool ?tas0, 0)
      else (pool ?tas0, 0))")
  obtain ta tas1 where g: "getitem ?tas0 al = (ta, tas1)" by (cases "getitem ?tas0 al")
  then have tas1: "tas1 = snd (getitem ?tas0 al)" by simp
  obtain sz seen where ff: "first_fit tas1 ta tsz (limit t) (size_tas tas1) lvs None = (sz, seen)"
    by (cases "first_fit tas1 ta tsz (limit t) (size_tas tas1) lvs None")
  let ?tm = "tm0 |-| pool ?tas0"
  from assms obtain lv where seen: "seen = Some lv"
    by (cases seen) (auto simp: add'_def Let_def ov g ff split: if_splits)
  let ?t3 = "t\<lparr>tsize := sz, alliances := set_tas (tas1\<lparr>mixed := mixed tas1 |\<union>| ?tm\<rparr>) al lv\<rparr>"
  from assms have le: "sz \<le> limit t" and sz3: "size_tas (alliances ?t3) \<le> limit t"
    and pa: "post_add e ?t3 = Inr t'"
    by (auto simp: add'_def Let_def ov g ff seen split: if_splits sum.splits dest!: post_check_Inr)
  have "tm0 |\<subseteq>| pool ?tas0 |\<union>| present_heroes ?tas0"
  proof (cases "contains ?tas0 al")
    case True
    with ov show ?thesis by auto
  next
    case False
    with ov have "fold (overlap_step ?tas0 al) (entries ?tas0) (pool ?tas0, 0) = (tm0, tsz)" by simp
    from overlap_fold[OF this] show ?thesis
      by (auto simp: present_heroes_mem keys_def)
  qed
  then have 2: "?tm |\<subseteq>| present_heroes ?tas0" by auto
  have 1: "?tm |\<inter>| pool ?tas0 = {||}" by auto
  from first_fit_result[OF ff] have 5: "size_tas ?tas0 \<le> sz" by (simp add: tas1)
  from first_fit_result[OF ff] seen have 9: "lv \<in> set lvs" by auto
  show ?thesis
    by (rule that[of ?tm ?t3 lv]) (use 1 2 5 le sz3 pa 9 in \<open>simp_all add: tas1\<close>)
qed


subsection \<open>What a call of \<open>_add_hero\<close> does\<close>

lemma add_hero_Inr:
  assumes "add_hero e t h = Inr t'"
  obtains t2 where
    "team (alliances t2) = team (alliances t) |\<union>| {|h|}"
    "mixed (alliances t2) = mixed (alliances t) |-| (team (alliances t) |\<union>| {|h|})"
    "entries (alliances t2) = entries (alliances t)"
    "tsize t2 = tsize t" "limit t2 = limit t"
    "(\<exists>ta \<in> set (entries (alliances t)). 0 < a_size (alliances t) ta \<and> h |\<in>| a_heroes (alliances t) ta)
       \<or> size_tas (alliances t) + 1 \<le> limit t"
    "post_add e t2 = Inr t'"
proof -
  let ?tas = "alliances t"
  let ?t2 = "t\<lparr>alliances := ?tas\<lparr>team := team ?tas |\<union>| {|h|},
                                   mixed := mixed ?tas |-| (team ?tas |\<union>| {|h|})\<rparr>\<rparr>"
  from assms have "post_add e ?t2 = Inr t'"
    by (auto simp: add_hero_def add_hero'_def Let_def split: if_splits sum.splits dest!: post_check_Inr)
  moreover from assms
  have "(\<exists>ta \<in> set (entries ?tas). 0 < a_size ?tas ta \<and> h |\<in>| a_heroes ?tas ta)
          \<or> size_tas ?tas + 1 \<le> limit t"
    by (auto simp: add_hero_def add_hero'_def Let_def list_ex_iff split: if_splits)
  ultimately show ?thesis
    by (intro that[of ?t2]) simp_all
qed


lemma len_single [simp]: "len {|h|} = 1"
  by (simp add: len_def fcard_finsert_disjoint)

lemma sum_list_mono_strict:
  assumes "\<forall>x \<in> set xs. f x \<le> (g x :: int)" and "\<exists>x \<in> set xs. f x + 1 \<le> g x"
  shows "sum_list (map f xs) + 1 \<le> sum_list (map g xs)"
  using assms
proof (induction xs)
  case Nil
  then show ?case by simp
next
  case (Cons a xs)
  have le: "sum_list (map f xs) \<le> sum_list (map g xs)"
    using Cons.prems(1) by (intro sum_list_mono) simp
  show ?case
  proof (cases "f a + 1 \<le> g a")
    case True
    with le show ?thesis by simp
  next
    case False
    with Cons.prems have "\<exists>x \<in> set xs. f x + 1 \<le> g x" by auto
    with Cons.IH Cons.prems(1) have "sum_list (map f xs) + 1 \<le> sum_list (map g xs)" by simp
    with Cons.prems(1) show ?thesis by simp
  qed
qed

lemma add_hero_size:
  assumes tm: "team tas2 = team tas |\<union>| {|h|}"
    and mx: "mixed tas2 = mixed tas |-| (team tas |\<union>| {|h|})"
    and en: "entries tas2 = entries tas"
    and c: "(\<exists>ta \<in> set (entries tas). 0 < a_size tas ta \<and> h |\<in>| a_heroes tas ta)
            \<or> size_tas tas + 1 \<le> lim"
    and le: "size_tas tas \<le> lim"
  shows "size_tas tas2 \<le> lim"
proof -
  have pool2: "pool tas2 = pool tas |\<union>| {|h|}"
    by (auto simp: pool_def tm mx)
  then have sub: "pool tas |\<subseteq>| pool tas2" by auto
  have t1: "len (team tas2) \<le> len (team tas) + 1"
    using len_union_le[of "team tas" "{|h|}"] by (simp add: tm)
  have m1: "len (mixed tas2) \<le> len (mixed tas)"
    unfolding mx by (intro len_mono) auto
  have a1: "\<forall>ta \<in> set (entries tas). a_size tas2 ta \<le> a_size tas ta"
    using a_size_antimono[OF sub] by simp
  from c show ?thesis
  proof
    assume "size_tas tas + 1 \<le> lim"
    moreover have "sum_list (map (a_size tas2) (entries tas)) \<le> sum_list (map (a_size tas) (entries tas))"
      using a1 by (intro sum_list_mono) simp
    ultimately show ?thesis using t1 m1 by (simp add: size_tas_sum en)
  next
    assume "\<exists>ta \<in> set (entries tas). 0 < a_size tas ta \<and> h |\<in>| a_heroes tas ta"
    then obtain ta where ta: "ta \<in> set (entries tas)" "0 < a_size tas ta" "h |\<in>| a_heroes tas ta"
      by blast
    then have hp: "h |\<notin>| pool tas" and hH: "h |\<in>| heroes (alliance ta)"
      by (auto simp: a_heroes_def)
    have "p_heroes tas2 ta = p_heroes tas ta |\<union>| {|h|}"
      using hH by (auto simp: p_heroes_def pool2)
    moreover have "p_heroes tas ta |\<inter>| {|h|} = {||}"
      using hp by (auto simp: p_heroes_def)
    ultimately have "len (p_heroes tas2 ta) = len (p_heroes tas ta) + 1"
      using len_union_disj[of "p_heroes tas ta" "{|h|}"] by simp
    with ta(2) have "a_size tas2 ta + 1 \<le> a_size tas ta"
      by (simp add: a_size_max)
    with ta(1) a1 have "sum_list (map (a_size tas2) (entries tas)) + 1 \<le> sum_list (map (a_size tas) (entries tas))"
      by (intro sum_list_mono_strict) auto
    moreover have "len (team tas2) = len (team tas) + 1"
    proof -
      have "team tas |\<inter>| {|h|} = {||}" using hp by (auto simp: pool_def)
      from len_union_disj[OF this] show ?thesis by (simp add: tm)
    qed
    ultimately show ?thesis using m1 le by (simp add: size_tas_sum en)
  qed
qed

subsection \<open>The public mutations\<close>

lemma keys_update [simp]:
  "keys (tas\<lparr>mixed := mx\<rparr>) = keys tas" "keys (tas\<lparr>team := tm\<rparr>) = keys tas"
  by (simp_all add: keys_def)



lemma mutate_Inr_cases:
  assumes "mutate e t m = Inr t'"
  obtains (add) al lvs where "requested m = Some al" "level al \<noteq> 0" "add' e t al lvs = Inr t'"
  | (hero) h where "m = Add_hero h" "add_hero e t h = Inr t'"
  using assms
  by (cases m) (auto simp: add_def add_max_def split: if_splits)

subsection \<open>One step of the exploration\<close>


section \<open>Copy on the store\<close>

subsection \<open>Objects and references\<close>

lemma agree_refl [simp]: "agree h h"
  by (simp add: agree_def)

lemma agree_nth: "agree h h' \<Longrightarrow> x < length h \<Longrightarrow> h' ! x = h ! x"
  by (metis agree_def nth_take)

lemma agreeI:
  assumes "length h \<le> length h'" and "\<And>x. x < length h \<Longrightarrow> h' ! x = h ! x"
  shows "agree h h'"
  unfolding agree_def using assms by (auto intro!: nth_equalityI)

lemma agree_trans: "agree h h' \<Longrightarrow> agree h' h'' \<Longrightarrow> agree h h''"
proof (rule agreeI)
  assume a: "agree h h'" and b: "agree h' h''"
  then show "length h \<le> length h''" by (simp add: agree_def)
  fix x assume x: "x < length h"
  with a have "x < length h'" by (simp add: agree_def)
  with agree_nth[OF b this] agree_nth[OF a x] show "h'' ! x = h ! x" by simp
qed

lemma agree_append [simp]: "agree h (h @ xs)"
  by (simp add: agree_def)

lemma agree_update: "agree h h' \<Longrightarrow> length h \<le> a \<Longrightarrow> agree h (h'[a := ob])"
  by (simp add: agree_def take_update_cancel)

lemma get_agree:
  assumes "agree h h'"
  shows "get_set h a = Some S \<Longrightarrow> get_set h' a = Some S"
    and "get_ta h a = Some v \<Longrightarrow> get_ta h' a = Some v"
    and "get_tas h a = Some ts \<Longrightarrow> get_tas h' a = Some ts"
    and "get_team h a = Some self \<Longrightarrow> get_team h' a = Some self"
  using assms agree_nth[OF assms, of a]
  by (auto simp: get_set_def get_ta_def get_tas_def get_team_def agree_def split: if_splits)

lemma view_entries_agree:
  "view_entries h d = Some es \<Longrightarrow> agree h h' \<Longrightarrow> view_entries h' d = Some es"
proof (induction d arbitrary: es)
  case Nil
  then show ?case by simp
next
  case (Cons p d)
  obtain k r where p: "p = (k, r)" by (cases p)
  from Cons.prems(1) p obtain v es' where v: "get_ta h r = Some v"
    and es': "view_entries h d = Some es'"
    and es: "es = \<lparr>alliance = o_alliance v, ta_level = o_level v\<rparr> # es'"
    by (auto split: option.splits)
  from get_agree(2)[OF Cons.prems(2) v] Cons.IH[OF es' Cons.prems(2)] p es
  show ?case by simp
qed

lemma view_agree:
  assumes "view h a = Some t" and "agree h h'"
  shows "view h' a = Some t"
proof -
  from assms(1) obtain self ts T M es where
    g: "get_team h a = Some self" "get_tas h (o_alliances self) = Some ts"
       "get_set h (o_team ts) = Some T" "get_set h (o_mixed ts) = Some M"
       "view_entries h (o_items ts) = Some es"
    and t: "t = \<lparr>tsize = o_size self, alliances = \<lparr>entries = es, team = T, mixed = M\<rparr>,
                 limit = o_limit self\<rparr>"
    by (auto simp: view_def split: option.splits)
  from get_agree[OF assms(2)] g view_entries_agree[OF g(5) assms(2)] t
  show ?thesis by (simp add: view_def)
qed

lemma dict_set_new: "k \<notin> fst ` set d \<Longrightarrow> dict_set d k r = d @ [(k, r)]"
  by (induction d) auto

lemma view_entries_cong:
  "\<forall>r \<in> snd ` set d. get_ta h' r = get_ta h r \<Longrightarrow> view_entries h' d = view_entries h d"
  by (induction d) (auto split: option.splits)

lemma view_entries_refs:
  "view_entries h d = Some es \<Longrightarrow> r \<in> snd ` set d \<Longrightarrow> \<exists>v. get_ta h r = Some v"
  by (induction d arbitrary: es) (force split: option.splits)+


subsection \<open>The copy is made of new objects\<close>

lemma get_append_old:
  assumes "a < length h"
  shows "get_set (h @ xs) a = get_set h a" "get_ta (h @ xs) a = get_ta h a"
    "get_tas (h @ xs) a = get_tas h a" "get_team (h @ xs) a = get_team h a"
  using assms by (simp_all add: get_set_def get_ta_def get_tas_def get_team_def nth_append)

lemma get_update_other:
  assumes "a \<noteq> b"
  shows "get_set (h[b := ob]) a = get_set h a" "get_ta (h[b := ob]) a = get_ta h a"
    "get_tas (h[b := ob]) a = get_tas h a" "get_team (h[b := ob]) a = get_team h a"
  using assms by (simp_all add: get_set_def get_ta_def get_tas_def get_team_def)

lemma get_length:
  "get_set h a = Some S \<Longrightarrow> a < length h" "get_ta h a = Some v \<Longrightarrow> a < length h"
  "get_tas h a = Some ts \<Longrightarrow> a < length h" "get_team h a = Some self \<Longrightarrow> a < length h"
  by (simp_all add: get_set_def get_ta_def get_tas_def get_team_def split: if_splits)

lemma get_ta_not_tas: "get_tas h a = Some ts \<Longrightarrow> get_ta h a = None"
  by (auto simp: get_ta_def get_tas_def split: if_splits obj.splits)

lemma h_copy_items_spec:
  assumes "get_tas h new = Some ts" and "view_entries h d = Some es"
    and "distinct (map fst d)" and "fst ` set d \<inter> fst ` set (o_items ts) = {}"
  shows "\<exists>h' its. h_copy_items h new d = Some h' \<and> length h \<le> length h' \<and>
           (\<forall>x < length h. x \<noteq> new \<longrightarrow> h' ! x = h ! x) \<and>
           get_tas h' new = Some (ts\<lparr>o_items := o_items ts @ its\<rparr>) \<and>
           view_entries h' its = Some es \<and>
           (\<forall>r \<in> snd ` set its. length h \<le> r \<and> r < length h' \<and>
               (\<exists>v. get_ta h' r = Some v \<and> o_tas v = new))"
  using assms
proof (induction d arbitrary: h ts es)
  case Nil
  then show ?case by (auto intro!: exI[of _ "[]"])
next
  case (Cons p d)
  obtain k r where p: "p = (k, r)" by (cases p)
  from Cons.prems(2) p obtain v es' where v: "get_ta h r = Some v"
    and es': "view_entries h d = Some es'"
    and es: "es = \<lparr>alliance = o_alliance v, ta_level = o_level v\<rparr> # es'"
    by (auto split: option.splits)
  let ?v' = "\<lparr>o_alliance = o_alliance v, o_level = o_level v, o_tas = new\<rparr>"
  let ?h1 = "h @ [TA_obj ?v']"
  let ?ts2 = "ts\<lparr>o_items := o_items ts @ [(k, length h)]\<rparr>"
  let ?h2 = "?h1[new := TAS_obj ?ts2]"
  have new: "new < length h" using Cons.prems(1) by (rule get_length)
  have knew: "k \<notin> fst ` set (o_items ts)" using Cons.prems(4) p by auto
  have g1: "get_tas ?h1 new = Some ts" using Cons.prems(1) new by (simp add: get_append_old)
  have step: "h_copy_items h new (p # d) = h_copy_items ?h2 new d"
    using v g1 knew by (simp add: p alloc_def dict_set_new)
  have g2: "get_tas ?h2 new = Some ?ts2"
    using new by (simp add: get_tas_def)
  have same: "get_ta ?h2 x = get_ta h x" if "get_ta h x = Some w" for x w
  proof -
    from that have "x < length h" by (rule get_length)
    moreover from that Cons.prems(1) have "x \<noteq> new" by (auto dest: get_ta_not_tas)
    ultimately show ?thesis by (simp add: get_update_other get_append_old)
  qed
  have "view_entries ?h2 d = view_entries h d"
  proof (rule view_entries_cong, rule ballI)
    fix x assume "x \<in> snd ` set d"
    from view_entries_refs[OF es' this] same show "get_ta ?h2 x = get_ta h x" by blast
  qed
  with es' have e2: "view_entries ?h2 d = Some es'" by simp
  have d2: "distinct (map fst d)" and k2: "fst ` set d \<inter> fst ` set (o_items ?ts2) = {}"
    using Cons.prems(3,4) p by auto
  from Cons.IH[OF g2 e2 d2 k2] obtain h' its where IH:
    "h_copy_items ?h2 new d = Some h'" "length ?h2 \<le> length h'"
    "\<forall>x < length ?h2. x \<noteq> new \<longrightarrow> h' ! x = ?h2 ! x"
    "get_tas h' new = Some (?ts2\<lparr>o_items := o_items ?ts2 @ its\<rparr>)"
    "view_entries h' its = Some es'"
    "\<forall>r \<in> snd ` set its. length ?h2 \<le> r \<and> r < length h' \<and>
               (\<exists>v. get_ta h' r = Some v \<and> o_tas v = new)"
    by blast
  have r': "h' ! length h = TA_obj ?v'"
    using IH(3) new by (simp add: nth_append)
  have gr': "get_ta h' (length h) = Some ?v'"
    using IH(2) r' by (simp add: get_ta_def)
  have "h_copy_items h new (p # d) = Some h'" using step IH(1) by simp
  moreover have "length h \<le> length h'" using IH(2) by simp
  moreover have "\<forall>x < length h. x \<noteq> new \<longrightarrow> h' ! x = h ! x"
    using IH(3) by (simp add: nth_append)
  moreover have "get_tas h' new = Some (ts\<lparr>o_items := o_items ts @ (k, length h) # its\<rparr>)"
    using IH(4) by simp
  moreover have "view_entries h' ((k, length h) # its) = Some es"
    using gr' IH(5) es by simp
  moreover have "\<forall>r \<in> snd ` set ((k, length h) # its). length h \<le> r \<and> r < length h' \<and>
               (\<exists>v. get_ta h' r = Some v \<and> o_tas v = new)"
    using IH(6) IH(2) gr' by auto
  ultimately show ?case by blast
qed

lemma h_copy_tas_spec:
  assumes "get_tas h a = Some ts" and "get_set h (o_team ts) = Some T"
    and "get_set h (o_mixed ts) = Some M" and "view_entries h (o_items ts) = Some es"
    and "distinct (map fst (o_items ts))"
  shows "\<exists>h' its. h_copy_tas h a = Some (h', length h + 2) \<and> agree h h' \<and>
           length h + 3 \<le> length h' \<and>
           get_tas h' (length h + 2) =
             Some \<lparr>o_items = its, o_team = length h, o_mixed = length h + 1\<rparr> \<and>
           get_set h' (length h) = Some T \<and> get_set h' (length h + 1) = Some M \<and>
           view_entries h' its = Some es \<and>
           (\<forall>r \<in> snd ` set its. length h + 3 \<le> r \<and> r < length h' \<and>
               (\<exists>v. get_ta h' r = Some v \<and> o_tas v = length h + 2))"
proof -
  let ?new = "length h + 2"
  let ?ts0 = "\<lparr>o_items = [], o_team = length h, o_mixed = length h + 1\<rparr>"
  let ?h3 = "h @ [Set_obj T, Set_obj M, TAS_obj ?ts0]"
  have g: "get_tas ?h3 ?new = Some ?ts0"
    by (simp add: get_tas_def nth_append)
  have e: "view_entries ?h3 (o_items ts) = Some es"
    using assms(4) by (rule view_entries_agree) simp
  from h_copy_items_spec[OF g e assms(5)] obtain h' its where s:
    "h_copy_items ?h3 ?new (o_items ts) = Some h'" "length ?h3 \<le> length h'"
    "\<forall>x < length ?h3. x \<noteq> ?new \<longrightarrow> h' ! x = ?h3 ! x"
    "get_tas h' ?new = Some (?ts0\<lparr>o_items := o_items ?ts0 @ its\<rparr>)"
    "view_entries h' its = Some es"
    "\<forall>r \<in> snd ` set its. length ?h3 \<le> r \<and> r < length h' \<and>
               (\<exists>v. get_ta h' r = Some v \<and> o_tas v = ?new)"
    by auto
  have "h_copy_tas h a = Some (h', ?new)"
    using assms(1,2,3) s(1) by (simp add: h_copy_tas_def alloc_def)
  moreover have "agree h h'"
    using s(2,3) by (intro agreeI) (auto simp: nth_append)
  moreover have "length h + 3 \<le> length h'" using s(2) by simp
  moreover have "get_tas h' ?new = Some \<lparr>o_items = its, o_team = length h, o_mixed = length h + 1\<rparr>"
    using s(4) by simp
  moreover have "h' ! length h = Set_obj T" "h' ! (length h + 1) = Set_obj M"
    using s(3) by (simp_all add: nth_append)
  then have "get_set h' (length h) = Some T" "get_set h' (length h + 1) = Some M"
    using s(2) by (simp_all add: get_set_def)
  moreover have "\<forall>r \<in> snd ` set its. length h + 3 \<le> r \<and> r < length h' \<and>
               (\<exists>v. get_ta h' r = Some v \<and> o_tas v = ?new)"
    using s(6) by (simp add: numeral_3_eq_3)
  ultimately show ?thesis using s(5) by blast
qed

lemma h_copy_spec:
  assumes "view h p = Some t" and "dict_ok h p"
  shows "\<exists>h' p'. h_copy h p = Some (h', p') \<and> agree h h' \<and> view h' p' = Some t \<and>
           (\<forall>x \<in> set (objects_of h' p'). length h \<le> x) \<and> reparented h' p'"
proof -
  from assms(1) obtain self ts T M es where
    g: "get_team h p = Some self" "get_tas h (o_alliances self) = Some ts"
       "get_set h (o_team ts) = Some T" "get_set h (o_mixed ts) = Some M"
       "view_entries h (o_items ts) = Some es"
    and t: "t = \<lparr>tsize = o_size self, alliances = \<lparr>entries = es, team = T, mixed = M\<rparr>,
                 limit = o_limit self\<rparr>"
    by (auto simp: view_def split: option.splits)
  from assms(2) g have dist: "distinct (map fst (o_items ts))" by (simp add: dict_ok_def)
  let ?n = "length h"
  let ?new = "?n + 3"
  let ?n1 = "\<lparr>o_size = 0, o_alliances = ?n + 2, o_limit = o_limit self\<rparr>"
  let ?h1 = "h @ [Set_obj {||}, Set_obj {||},
                  TAS_obj \<lparr>o_items = [], o_team = ?n, o_mixed = ?n + 1\<rparr>, T_obj ?n1]"
  let ?h2 = "?h1[?new := T_obj (?n1\<lparr>o_size := o_size self\<rparr>)]"
  have init: "h_init_team h (o_limit self) = (?h1, ?new)"
    by (simp add: h_init_team_def alloc_def)
  have g1: "get_team ?h1 ?new = Some ?n1" by (simp add: get_team_def nth_append)
  have a2: "agree h ?h2" by (intro agree_update) simp_all
  have l2: "length ?h2 = ?n + 4" by simp
  from h_copy_tas_spec[OF get_agree(3)[OF a2 g(2)] get_agree(1)[OF a2 g(3)]
        get_agree(1)[OF a2 g(4)] view_entries_agree[OF g(5) a2] dist]
  obtain h3 its where s:
    "h_copy_tas ?h2 (o_alliances self) = Some (h3, ?n + 6)" "agree ?h2 h3"
    "?n + 7 \<le> length h3"
    "get_tas h3 (?n + 6) = Some \<lparr>o_items = its, o_team = ?n + 4, o_mixed = ?n + 5\<rparr>"
    "get_set h3 (?n + 4) = Some T" "get_set h3 (?n + 5) = Some M"
    "view_entries h3 its = Some es"
    "\<forall>r \<in> snd ` set its. ?n + 7 \<le> r \<and> r < length h3 \<and>
               (\<exists>v. get_ta h3 r = Some v \<and> o_tas v = ?n + 6)"
    unfolding l2 by (auto simp: numeral_eq_Suc)
  let ?n2 = "?n1\<lparr>o_size := o_size self\<rparr>"
  have "get_team ?h2 ?new = Some ?n2" by (simp add: get_team_def)
  from get_agree(4)[OF s(2) this] have g3: "get_team h3 ?new = Some ?n2" .
  let ?h4 = "h3[?new := T_obj (?n2\<lparr>o_alliances := ?n + 6\<rparr>)]"
  have copy: "h_copy h p = Some (?h4, ?new)"
    using g(1) init g1 s(1) g3 by (simp add: h_copy_def Let_def)
  have a4: "agree h ?h4"
    using agree_trans[OF a2 s(2)] by (intro agree_update) simp_all
  have new3: "?new < length h3" using s(3) by simp
  have gt4: "get_team ?h4 ?new = Some (?n2\<lparr>o_alliances := ?n + 6\<rparr>)"
    using new3 by (simp add: get_team_def)
  have gs4: "get_tas ?h4 (?n + 6) = Some \<lparr>o_items = its, o_team = ?n + 4, o_mixed = ?n + 5\<rparr>"
    "get_set ?h4 (?n + 4) = Some T" "get_set ?h4 (?n + 5) = Some M"
    using s(4,5,6) by (simp_all add: get_update_other)
  have refs: "get_ta ?h4 r = get_ta h3 r" if "r \<in> snd ` set its" for r
    using s(8) that by (intro get_update_other) auto
  then have "view_entries ?h4 its = view_entries h3 its"
    by (intro view_entries_cong) simp
  with s(7) have ve4: "view_entries ?h4 its = Some es" by simp
  have v4: "view ?h4 ?new = Some t"
    using gt4 gs4 ve4 by (simp add: view_def t)
  have ob: "objects_of ?h4 ?new = ?new # (?n + 6) # (?n + 4) # (?n + 5) # map snd its"
    using gt4 gs4 by (simp add: objects_of_def)
  have fresh: "\<forall>x \<in> set (objects_of ?h4 ?new). length h \<le> x"
    unfolding ob using s(8) by auto
  have "map_option o_tas (get_ta ?h4 r) = Some (?n + 6)"
    if "(k, r) \<in> set its" for k r
  proof -
    from that have r: "r \<in> snd ` set its" by force
    with s(8) obtain v where "get_ta h3 r = Some v" "o_tas v = ?n + 6" by blast
    with refs[OF r] show ?thesis by simp
  qed
  then have "list_all (\<lambda>(k, r). map_option o_tas (get_ta ?h4 r) = Some (?n + 6)) its"
    unfolding list_all_iff by blast
  then have rp: "reparented ?h4 ?new"
    using gt4 gs4 by (simp add: reparented_def)
  from copy a4 v4 fresh rp show ?thesis by blast
qed

lemma confined_agree:
  assumes "confined h' objs h''" and "agree h h'" and "\<forall>x \<in> set objs. length h \<le> x"
  shows "agree h h''"
proof (rule agreeI)
  from assms(1,2) show "length h \<le> length h''" by (simp add: confined_def agree_def)
  fix x assume x: "x < length h"
  with assms(2) have x': "x < length h'" by (simp add: agree_def)
  from x assms(3) have "x \<notin> set objs" by auto
  with assms(1) x' have "h'' ! x = h' ! x" by (simp add: confined_def)
  with agree_nth[OF assms(2) x] show "h'' ! x = h ! x" by simp
qed

section \<open>The concrete runs\<close>

lemma ex_F_neq_G:
  "ex_F \<noteq> ex_G" "ex_F \<noteq> ex_K" "ex_G \<noteq> ex_K"
  "ex_F \<noteq> ex_P" "ex_G \<noteq> ex_P" "ex_K \<noteq> ex_P"
  by (simp_all add: ex_F_def ex_G_def ex_K_def ex_P_def)

lemma ex_levels: "level ex_F = 3" "level ex_G = 3" "level ex_K = 3" "level ex_P = 3"
  by (simp_all add: ex_F_def ex_G_def ex_K_def ex_P_def)

lemma ex_env_loaded: "loaded ex_env"
  unfolding loaded_def ex_env_def
  by (auto simp: sorted_list_of_fset.rep_eq ex_F_neq_G ex_levels)

lemma run_add_F1: "add ex_env (init_team 10) ex_F 1 = Inr (ex_team 10 3 1)"
  unfolding ex_team_def by code_simp

lemma run_add_F2: "add ex_env (init_team 10) ex_F 2 = Inr (ex_team 10 6 2)"
  unfolding ex_team_def by code_simp

lemma run_add_F2_F1: "add ex_env (ex_team 10 6 2) ex_F 1 = Inr (ex_team 10 6 1)"
  unfolding ex_team_def by code_simp

lemma run_add_F1_lim8: "add ex_env (init_team 8) ex_F 1 = Inr (ex_team 8 3 1)"
  unfolding ex_team_def by code_simp

lemma run_add_F1_F2_lim8: "add ex_env (ex_team 8 3 1) ex_F 2 = Inr (ex_team 8 3 2)"
  unfolding ex_team_def by code_simp

lemma run_estimate_lim8:
  "size_tas (alliances (ex_team 8 3 1))
     + level_up_amount (alliances (ex_team 8 3 1)) \<lparr>alliance = ex_F, ta_level = 1\<rparr> 2 0 = 9"
  unfolding ex_team_def by code_simp

lemma run_max_1: "increase' (team_max ex_env) (ex_team 10 3 1) [ex_F] = Inr [ex_team 10 9 2]"
  unfolding ex_team_def by code_simp

lemma run_max_2: "increase' (team_max ex_env) (ex_team 10 9 2) [ex_F] = Inr [ex_team 10 6 1]"
  unfolding ex_team_def by code_simp

lemma run_max_3: "increase' (team_max ex_env) (ex_team 10 6 1) [ex_F] = Inr [ex_team 10 9 2]"
  unfolding ex_team_def by code_simp

lemma run_levels:
  "stored_level (ex_team 10 6 2) ex_F = 2" "stored_level (ex_team 10 6 1) ex_F = 1"
  "stored_level (ex_team 8 3 1) ex_F = 1" "stored_level (ex_team 8 3 2) ex_F = 2"
  by (simp_all add: stored_level_def ex_team_def)








lemma run_add_K: "add ex_env (init_team 10) ex_K 1 =
   Inr \<lparr>tsize = 3,
        alliances = \<lparr>entries = [\<lparr>alliance = ex_K, ta_level = 1\<rparr>],
                     team = {|''x'', ''y'', ''z''|}, mixed = {||}\<rparr>,
        limit = 10\<rparr>"
  by code_simp

lemma run_view: "view ex_heap 4 = Some (ex_team 10 6 2)"
  unfolding ex_team_def by code_simp

lemma run_dict_ok: "dict_ok ex_heap 4"
  by code_simp

lemma run_h_copy: "h_copy ex_heap 4 = Some (ex_heap_copy, 8)"
  by code_simp

lemma run_view_copy: "view ex_heap_copy 8 = Some (ex_team 10 6 2)"
  unfolding ex_team_def by code_simp

lemma run_reparented: "reparented ex_heap_copy 8"
  by code_simp

lemma run_confined: "confined ex_heap_copy (objects_of ex_heap_copy 8) ex_heap_mutated"
  by code_simp

lemma run_view_mutated: "view ex_heap_mutated 8 = Some (ex_team 10 6 3)"
  unfolding ex_team_def by code_simp

lemma run_eq_levels: "eq_team (ex_team 10 6 2) (ex_team 10 6 1)"
  by (simp add: eq_team_def eq_tas_def ex_team_def keys_def)

lemma run_pair_1: "add ex_env (ex_team 10 3 1) ex_P 1 = Inr (ex_pair 4 1 1)"
  unfolding ex_team_def ex_pair_def by code_simp

lemma run_pair_2: "add ex_env (ex_pair 4 1 1) ex_F 0 = Inr (ex_pair 4 0 1)"
  unfolding ex_pair_def by code_simp

lemma run_pair_3: "add ex_env (ex_pair 4 0 1) ex_P 0 = Inr (ex_pair 3 0 0)"
  unfolding ex_pair_def by code_simp

lemma run_pair_engaged:
  "pool (alliances (ex_pair 4 0 1)) |\<subseteq>| engaged_heroes (alliances (ex_pair 4 0 1))"
  "engaged_heroes (alliances (ex_pair 3 0 0)) = {||}"
  "''a'' |\<in>| pool (alliances (ex_pair 3 0 0))"
  unfolding ex_pair_def by code_simp+

lemma run_pair_disjoint: "disjoint (ex_pair 4 0 1)"
  by (simp add: disjoint_def ex_pair_def)

section \<open>Exploration that never returns\<close>

text \<open>
  With \<open>team_max\<close> on the single faction \<open>ex_F\<close> and limit 10, the Team with level 2 and
  cached size 9 and the Team with level 1 and cached size 6 yield each other for ever:
  no call of \<open>explore\<close> on either of them has a result.
\<close>

lemma explore_cycle:
  assumes "explore fn als x = Some y"
  shows "fn = team_max ex_env \<longrightarrow> als = [ex_F] \<longrightarrow>
         x \<notin> {Inl (ex_team 10 9 2), Inl (ex_team 10 6 1),
               Inr [ex_team 10 9 2], Inr [ex_team 10 6 1]}"
proof -
  let ?D = "{Inl (ex_team 10 9 2), Inl (ex_team 10 6 1),
             Inr [ex_team 10 9 2], Inr [ex_team 10 6 1]} :: (Team + Team list) set"
  let ?P = "\<lambda>fn als x (y :: error + Team list).
              fn = team_max ex_env \<longrightarrow> als = [ex_F] \<longrightarrow> x \<notin> ?D"
  from assms
  have "(case ((fn, als), x) of (p, c) \<Rightarrow> (case p of (a, b) \<Rightarrow> explore a b) c) = Some y"
    by simp
  then have "(case ((fn, als), x) of (p, c) \<Rightarrow> (case p of (a, b) \<Rightarrow> ?P a b) c) y"
  proof (rule explore.raw_induct[rotated], goal_cases)
    case (1 f fn als x y)
    note IH = "1"(1) and eq = "1"(2)
    have none: "f (team_max ex_env) [ex_F] z = None" if "z \<in> ?D" for z
    proof (cases "f (team_max ex_env) [ex_F] z")
      case (Some r)
      from IH[OF Some] that show ?thesis by simp
    qed simp
    show ?case
    proof (intro impI notI)
      assume fn: "fn = team_max ex_env" and als: "als = [ex_F]" and "x \<in> ?D"
      then consider "x = Inl (ex_team 10 9 2)" | "x = Inl (ex_team 10 6 1)"
        | "x = Inr [ex_team 10 9 2]" | "x = Inr [ex_team 10 6 1]"
        by auto
      then show False
      proof cases
        case 1
        with eq none[of "Inr [ex_team 10 6 1]"] fn als show False
          by (simp add: run_max_2 del: increase'.simps)
      next
        case 2
        with eq none[of "Inr [ex_team 10 9 2]"] fn als show False
          by (simp add: run_max_3 del: increase'.simps)
      next
        case 3
        with eq none[of "Inl (ex_team 10 9 2)"] fn als show False
          by simp
      next
        case 4
        with eq none[of "Inl (ex_team 10 6 1)"] fn als show False
          by simp
      qed
    qed
  qed
  then show ?thesis by simp
qed

lemma explore_cycle_None: "explore (team_max ex_env) [ex_F] (Inl (ex_team 10 9 2)) = None"
  using explore_cycle[of "team_max ex_env" "[ex_F]" "Inl (ex_team 10 9 2)"]
  by (cases "explore (team_max ex_env) [ex_F] (Inl (ex_team 10 9 2))") auto

text \<open>
  C2, at a failing input. The Team \<open>Team(limit=10).add(F, 1)\<close>, for a faction \<open>F\<close> of
  level 3 and total 9 with nine heroes, is explored with \<open>team_max\<close> over the faction list
  \<open>[F]\<close>: \<open>recursive_increase\<close> does not return and yields no Team.
\<close>

theorem recursive_increase_diverges:
  "add ex_env (init_team 10) ex_F 1 = Inr (ex_team 10 3 1) \<and>
   recursive_increase (team_max ex_env) (ex_team 10 3 1) [ex_F] = None"
proof -
  have "explore (team_max ex_env) [ex_F] (Inl (ex_team 10 3 1)) = None"
    by (subst explore.simps)
       (simp add: run_max_1 explore_cycle_None
                  explore.simps[of _ _ "Inr [ex_team 10 9 2]"] del: increase'.simps)
  then show ?thesis
    by (simp add: run_add_F1 recursive_increase_def)
qed

text \<open>
  C3, at a failing input. After \<open>add(F, 2)\<close> on an empty Team of limit 10 the stored level
  of \<open>F\<close> is 2; a following \<open>add(F, 1)\<close> returns normally and stores level 1.
\<close>

theorem add_lower_level_lowers:
  "add ex_env (init_team 10) ex_F 2 = Inr (ex_team 10 6 2) \<and>
   stored_level (ex_team 10 6 2) ex_F = 2 \<and>
   add ex_env (ex_team 10 6 2) ex_F 1 = Inr (ex_team 10 6 1) \<and>
   stored_level (ex_team 10 6 1) ex_F = 1"
  by (simp add: run_add_F2 run_add_F2_F1 run_levels)

text \<open>
  C6, at a failing input. On the Team \<open>Team(limit=8).add(F, 1)\<close> the only candidate level
  of \<open>add(F, 2)\<close> is above the stored level 1 and does not fit (current size 3 plus
  \<open>level_up_amount\<close> 6 is 9, above 8); the call raises nothing and stores level 2.
\<close>

theorem add_no_fit_commits:
  "add ex_env (init_team 8) ex_F 1 = Inr (ex_team 8 3 1) \<and>
   limit (ex_team 8 3 1) <
     size_tas (alliances (ex_team 8 3 1))
       + level_up_amount (alliances (ex_team 8 3 1)) \<lparr>alliance = ex_F, ta_level = 1\<rparr> 2 0 \<and>
   add ex_env (ex_team 8 3 1) ex_F 2 = Inr (ex_team 8 3 2) \<and>
   stored_level (ex_team 8 3 2) ex_F = 2"
  by (simp add: run_add_F1_lim8 run_add_F1_F2_lim8 run_estimate_lim8 run_levels)
     (simp add: ex_team_def)

text \<open>
  C4. Capacity invariant: on a loaded reference graph, when \<open>alliances.size \<le> limit\<close> holds
  for a Team, it holds again after every call of \<open>add\<close>, \<open>add_max\<close> or \<open>add_hero\<close> that
  returns, the post-check and the convergence pass included.
\<close>

theorem capacity_invariant:
  assumes "loaded e" and "size_tas (alliances t) \<le> limit t" and "mutate e t m = Inr t'"
  shows "size_tas (alliances t') \<le> limit t'"
  using assms(3)
proof (cases rule: mutate_Inr_cases)
  case (add al lvs)
  from add(3) obtain t3 where "limit t3 = limit t" "size_tas (alliances t3) \<le> limit t"
    "post_add e t3 = Inr t'"
    by (rule add'_Inr)
  with post_add_size[OF assms(1), of t3 t'] post_add_Inr(2)[of e t3 t'] show ?thesis by simp
next
  case (hero h)
  from hero(2) obtain t2 where t2:
    "team (alliances t2) = team (alliances t) |\<union>| {|h|}"
    "mixed (alliances t2) = mixed (alliances t) |-| (team (alliances t) |\<union>| {|h|})"
    "entries (alliances t2) = entries (alliances t)"
    "limit t2 = limit t"
    "(\<exists>ta \<in> set (entries (alliances t)). 0 < a_size (alliances t) ta \<and> h |\<in>| a_heroes (alliances t) ta)
       \<or> size_tas (alliances t) + 1 \<le> limit t"
    "post_add e t2 = Inr t'"
    by (rule add_hero_Inr)
  from add_hero_size[OF t2(1,2,3,5) assms(2)] have "size_tas (alliances t2) \<le> limit t" .
  with post_add_size[OF assms(1) t2(6)] post_add_Inr(2)[OF t2(6)] t2(4) show ?thesis by simp
qed

theorem capacity_invariant_witness:
  "loaded ex_env \<and> size_tas (alliances (init_team 10)) \<le> limit (init_team 10) \<and>
   mutate ex_env (init_team 10) (Add ex_F 2) = Inr (ex_team 10 6 2) \<and>
   size_tas (alliances (ex_team 10 6 2)) \<le> limit (ex_team 10 6 2)"
proof -
  have s: "size_tas (alliances (init_team 10)) \<le> limit (init_team 10)"
    by (simp add: init_team_def size_tas_def)
  have m: "mutate ex_env (init_team 10) (Add ex_F 2) = Inr (ex_team 10 6 2)"
    by (simp add: run_add_F2)
  from capacity_invariant[OF ex_env_loaded s m] ex_env_loaded s m show ?thesis by simp
qed

text \<open>
  What every mutation that returns keeps: \<open>team\<close> and \<open>mixed\<close> stay disjoint, and the pool
  stays within the heroes of the factions that have an entry, the directly added heroes
  \<open>D\<close> and the hero the call adds directly.
\<close>

lemma mutation_keeps_disjoint:
  assumes "disjoint t"
    and "pool (alliances t) |\<subseteq>| present_heroes (alliances t) |\<union>| D"
    and "mutate e t m = Inr t'"
  shows "disjoint t' \<and>
         pool (alliances t') |\<subseteq>| present_heroes (alliances t') |\<union>| (D |\<union>| direct m)"
  using assms(3)
proof (cases rule: mutate_Inr_cases)
  case (add al lvs)
  from add(3) obtain t3 tm lv where t3:
    "tm |\<inter>| pool (alliances t) = {||}"
    "tm |\<subseteq>| present_heroes (alliances t)"
    "alliances t3 = set_tas ((snd (getitem (alliances t) al))\<lparr>mixed := mixed (alliances t) |\<union>| tm\<rparr>) al lv"
    "post_add e t3 = Inr t'"
    by (rule add'_Inr)
  have tm3: "team (alliances t3) = team (alliances t)"
    and mx3: "mixed (alliances t3) = mixed (alliances t) |\<union>| tm"
    by (simp_all add: t3(3))
  have k3: "set (keys (alliances t)) \<subseteq> set (keys (alliances t3))"
    by (auto simp: t3(3) set_tas_keys getitem_keys)
  have d3: "disjoint t3"
    using assms(1) t3(1) by (auto simp: disjoint_def tm3 mx3 pool_def)
  have p3: "pool (alliances t3) |\<subseteq>| present_heroes (alliances t3) |\<union>| D"
    using assms(2) t3(2) present_heroes_mono[OF k3]
    by (auto simp: pool_def tm3 mx3)
  note P = post_add_Inr[OF t3(4)]
  have "present_heroes (alliances t3) |\<subseteq>| present_heroes (alliances t')"
    using P(3) by (rule present_heroes_mono)
  with P(5) p3 have "pool (alliances t') |\<subseteq>| present_heroes (alliances t') |\<union>| D"
    by blast
  with P(6)[OF d3] show ?thesis by auto
next
  case (hero h)
  from hero(2) obtain t2 where t2:
    "team (alliances t2) = team (alliances t) |\<union>| {|h|}"
    "mixed (alliances t2) = mixed (alliances t) |-| (team (alliances t) |\<union>| {|h|})"
    "entries (alliances t2) = entries (alliances t)"
    "post_add e t2 = Inr t'"
    by (rule add_hero_Inr)
  have d2: "disjoint t2" by (auto simp: disjoint_def t2)
  have e2: "present_heroes (alliances t2) = present_heroes (alliances t)"
    by (simp add: present_heroes_def keys_def t2)
  have p2: "pool (alliances t2) |\<subseteq>| present_heroes (alliances t2) |\<union>| (D |\<union>| {|h|})"
    using assms(2) by (auto simp: pool_def t2 e2)
  note P = post_add_Inr[OF t2(4)]
  have "present_heroes (alliances t2) |\<subseteq>| present_heroes (alliances t')"
    using P(3) by (rule present_heroes_mono)
  with P(5) p2 have "pool (alliances t') |\<subseteq>| present_heroes (alliances t') |\<union>| (D |\<union>| {|h|})"
    by blast
  with P(6)[OF d2] hero(1) show ?thesis by simp
qed

text \<open>
  C5, at a failing input. \<open>F\<close> and \<open>P\<close> are factions of level 3 that share the heroes \<open>a\<close>
  and \<open>b\<close>. The Team \<open>Team(limit=10).add(F, 1).add(P, 1).add(F, 0)\<close> has \<open>team\<close> and \<open>mixed\<close>
  disjoint and its pool \<open>{a, b}\<close> within the heroes of the engaged faction \<open>P\<close>; no hero
  was added directly. \<open>add(P, 0)\<close> returns on it and stores level 0 for \<open>P\<close>: no faction is
  engaged any more, and \<open>a\<close> is still in the pool.
\<close>

theorem pool_outlives_engagement:
  "add ex_env (init_team 10) ex_F 1 = Inr (ex_team 10 3 1) \<and>
   add ex_env (ex_team 10 3 1) ex_P 1 = Inr (ex_pair 4 1 1) \<and>
   add ex_env (ex_pair 4 1 1) ex_F 0 = Inr (ex_pair 4 0 1) \<and>
   disjoint (ex_pair 4 0 1) \<and>
   pool (alliances (ex_pair 4 0 1)) |\<subseteq>| engaged_heroes (alliances (ex_pair 4 0 1)) \<and>
   add ex_env (ex_pair 4 0 1) ex_P 0 = Inr (ex_pair 3 0 0) \<and>
   engaged_heroes (alliances (ex_pair 3 0 0)) = {||} \<and>
   ''a'' |\<in>| pool (alliances (ex_pair 3 0 0))"
  by (simp add: run_add_F1 run_pair_1 run_pair_2 run_pair_3 run_pair_engaged run_pair_disjoint)









text \<open>
  C9. Idempotent convergence: on a loaded reference graph, for a Team with disjoint
  \<open>team\<close> and \<open>mixed\<close>, the state in which \<open>add\<close>, \<open>add_max\<close> or \<open>add_hero\<close> returns is a
  fixed point of the convergence pass: running \<open>_post_add\<close> on it again returns the very
  same Team (same \<open>team\<close>, same \<open>mixed\<close>, same entries and levels).
\<close>

theorem idempotent_convergence:
  assumes "loaded e" and "disjoint t" and "mutate e t m = Inr t'"
  shows "post_add e t' = Inr t'"
  using assms(3)
proof (cases rule: mutate_Inr_cases)
  case (add al lvs)
  from add(3) obtain t3 tm lv where t3:
    "tm |\<inter>| pool (alliances t) = {||}"
    "alliances t3 = set_tas ((snd (getitem (alliances t) al))\<lparr>mixed := mixed (alliances t) |\<union>| tm\<rparr>) al lv"
    "post_add e t3 = Inr t'"
    by (rule add'_Inr)
  have "disjoint t3"
    using assms(2) t3(1) by (auto simp: disjoint_def t3(2) pool_def)
  from post_add_idem[OF assms(1) this t3(3)] show ?thesis .
next
  case (hero h)
  from hero(2) obtain t2 where t2:
    "team (alliances t2) = team (alliances t) |\<union>| {|h|}"
    "mixed (alliances t2) = mixed (alliances t) |-| (team (alliances t) |\<union>| {|h|})"
    "post_add e t2 = Inr t'"
    by (rule add_hero_Inr)
  have "disjoint t2" by (auto simp: disjoint_def t2)
  from post_add_idem[OF assms(1) this t2(3)] show ?thesis .
qed

theorem idempotent_convergence_witness:
  "loaded ex_env \<and> disjoint (init_team 10) \<and>
   mutate ex_env (init_team 10) (Add ex_K 1) =
     Inr \<lparr>tsize = 3,
          alliances = \<lparr>entries = [\<lparr>alliance = ex_K, ta_level = 1\<rparr>],
                       team = {|''x'', ''y'', ''z''|}, mixed = {||}\<rparr>,
          limit = 10\<rparr> \<and>
   post_add ex_env \<lparr>tsize = 3,
          alliances = \<lparr>entries = [\<lparr>alliance = ex_K, ta_level = 1\<rparr>],
                       team = {|''x'', ''y'', ''z''|}, mixed = {||}\<rparr>,
          limit = 10\<rparr> =
     Inr \<lparr>tsize = 3,
          alliances = \<lparr>entries = [\<lparr>alliance = ex_K, ta_level = 1\<rparr>],
                       team = {|''x'', ''y'', ''z''|}, mixed = {||}\<rparr>,
          limit = 10\<rparr>"
proof -
  have d: "disjoint (init_team 10)" by (simp add: disjoint_def init_team_def)
  have m: "mutate ex_env (init_team 10) (Add ex_K 1) =
     Inr \<lparr>tsize = 3,
          alliances = \<lparr>entries = [\<lparr>alliance = ex_K, ta_level = 1\<rparr>],
                       team = {|''x'', ''y'', ''z''|}, mixed = {||}\<rparr>,
          limit = 10\<rparr>"
    by (simp add: run_add_K)
  from idempotent_convergence[OF ex_env_loaded d m] ex_env_loaded d m show ?thesis by simp
qed

text \<open>
  C8, as stated, fails: the Teams after \<open>add(F, 2)\<close> and after \<open>add(F, 2)\<close>, \<open>add(F, 1)\<close> on
  an empty Team of limit 10 are equal for \<open>__eq__\<close>, and the stored level of \<open>F\<close> is 2 in
  the one and 1 in the other.
\<close>

theorem equality_counterexample:
  "add ex_env (init_team 10) ex_F 2 = Inr (ex_team 10 6 2) \<and>
   add ex_env (ex_team 10 6 2) ex_F 1 = Inr (ex_team 10 6 1) \<and>
   eq_team (ex_team 10 6 2) (ex_team 10 6 1) \<and>
   stored_level (ex_team 10 6 2) ex_F = 2 \<and> stored_level (ex_team 10 6 1) ex_F = 1"
  by (simp add: run_add_F2 run_add_F2_F1 run_eq_levels run_levels)

text \<open>
  C8, amended. Two Teams are equal exactly when they agree on size, limit, team set,
  mixed set and the set of factions that have an entry (stored levels are not compared).
  \<open>t.copy()\<close> has the value of \<open>t\<close>, stored levels included, and is equal to it. On the
  store, \<open>copy\<close> of a Team returns a Team of the same value whose objects (the Team, its
  container, both sets, every entry) are all newly allocated, each entry referring back
  to the new container; so whatever is then written to the objects of the copy, or
  allocated, leaves the value of the original as it was.
\<close>

theorem equality_and_copy:
  "(eq_team a b \<longleftrightarrow>
      tsize a = tsize b \<and> limit a = limit b \<and> team (alliances a) = team (alliances b) \<and>
      mixed (alliances a) = mixed (alliances b) \<and>
      set (keys (alliances a)) = set (keys (alliances b))) \<and>
   copy t = t \<and> eq_team (copy t) t \<and>
   (view h p = Some t \<and> dict_ok h p \<longrightarrow>
      (\<exists>h' p'. h_copy h p = Some (h', p') \<and> view h' p' = Some t \<and> reparented h' p' \<and>
          (\<forall>x \<in> set (objects_of h' p'). length h \<le> x) \<and>
          (\<forall>h''. confined h' (objects_of h' p') h'' \<longrightarrow> view h'' p = Some t)))"
proof (intro conjI impI)
  show "eq_team a b \<longleftrightarrow>
      tsize a = tsize b \<and> limit a = limit b \<and> team (alliances a) = team (alliances b) \<and>
      mixed (alliances a) = mixed (alliances b) \<and>
      set (keys (alliances a)) = set (keys (alliances b))"
    by (auto simp: eq_team_def eq_tas_def)
  show "copy t = t" by simp
  show "eq_team (copy t) t" by (simp add: eq_team_def eq_tas_def)
  assume "view h p = Some t \<and> dict_ok h p"
  then have v: "view h p = Some t" and d: "dict_ok h p" by simp_all
  from h_copy_spec[OF v d] obtain h' p' where c:
    "h_copy h p = Some (h', p')" "agree h h'" "view h' p' = Some t"
    "\<forall>x \<in> set (objects_of h' p'). length h \<le> x" "reparented h' p'"
    by blast
  have "view h'' p = Some t" if "confined h' (objects_of h' p') h''" for h''
    using view_agree[OF v confined_agree[OF that c(2,4)]] .
  with c show "\<exists>h' p'. h_copy h p = Some (h', p') \<and> view h' p' = Some t \<and> reparented h' p' \<and>
          (\<forall>x \<in> set (objects_of h' p'). length h \<le> x) \<and>
          (\<forall>h''. confined h' (objects_of h' p') h'' \<longrightarrow> view h'' p = Some t)"
    by blast
qed

theorem equality_and_copy_witness:
  "view ex_heap 4 = Some (ex_team 10 6 2) \<and> dict_ok ex_heap 4 \<and>
   h_copy ex_heap 4 = Some (ex_heap_copy, 8) \<and>
   view ex_heap_copy 8 = Some (ex_team 10 6 2) \<and> reparented ex_heap_copy 8 \<and>
   confined ex_heap_copy (objects_of ex_heap_copy 8) ex_heap_mutated \<and>
   view ex_heap_mutated 8 = Some (ex_team 10 6 3) \<and>
   view ex_heap_mutated 4 = Some (ex_team 10 6 2)"
proof -
  from equality_and_copy[of "ex_team 10 6 2" "ex_team 10 6 2" "ex_team 10 6 2" ex_heap 4]
    run_view run_dict_ok
  obtain h' p' where "h_copy ex_heap 4 = Some (h', p')"
    and "\<forall>h''. confined h' (objects_of h' p') h'' \<longrightarrow> view h'' 4 = Some (ex_team 10 6 2)"
    by blast
  with run_h_copy run_confined have "view ex_heap_mutated 4 = Some (ex_team 10 6 2)"
    by simp
  with run_view run_dict_ok run_h_copy run_view_copy run_reparented run_confined run_view_mutated
  show ?thesis by simp
qed

end
